theory Spec2Isabelle
  imports Complex_Main
begin

section \<open>Data model\<close>

text \<open>
  The supervisor of \<^verbatim>\<open>scs/agent/supervisor.py\<close> reconciles worker nodes against the model.
  A node is a model instance; the supervisor reads the fields below and never writes them
  (\<^verbatim>\<open>node.disable()\<close> is a call on the model, recorded as an event).  The bound method
  \<^verbatim>\<open>node.restart\<close> is used as the key of the bucket registry; it identifies the node, so the
  key is the node's \<open>name\<close>.

  The older \<^verbatim>\<open>scs/supervisor.py\<close> has the same \<^verbatim>\<open>_do_restart_node\<close>, \<^verbatim>\<open>_can_restart\<close>,
  \<^verbatim>\<open>_do_stop_node\<close>, \<^verbatim>\<open>_verify_node_queues\<close> and \<^verbatim>\<open>_verify_node_processes\<close> and the same
  handling of a request in \<^verbatim>\<open>run\<close>.  It differs in where it reads \<open>paused\<close> (in \<^verbatim>\<open>verify\<close>,
  not in \<^verbatim>\<open>_do_verify_node\<close>) and in the timeouts of \<^verbatim>\<open>_verify_restart_node\<close>, a fixed tuple.
  The definitions follow \<^verbatim>\<open>scs/agent/supervisor.py\<close>.
\<close>

type_synonym queue_name = string
type_synonym node_key = string

record node =
  name :: node_key
  pk :: "int option"
  is_enabled :: bool
  queues :: "queue_name list"
  direct_queue :: queue_name
  max_concurrency :: int
  min_concurrency :: int

text \<open>Python values as far as the stats reply needs them.\<close>

datatype pyval = PyNone | PyInt int | PyDict "(string \<times> pyval) list"

text \<open>
  Exceptions.  \<^verbatim>\<open>except Exception\<close> catches every class derived from \<^verbatim>\<open>Exception\<close>;
  \<open>BaseExceptionOf\<close> stands for the others (\<^verbatim>\<open>KeyboardInterrupt\<close>, \<^verbatim>\<open>SystemExit\<close>,
  \<^verbatim>\<open>GreenletExit\<close>).
\<close>

datatype exn = KeyError string | TypeError | ExceptionOf string | BaseExceptionOf string

fun is_Exception :: "exn \<Rightarrow> bool" where
  "is_Exception (BaseExceptionOf _) = False"
| "is_Exception _ = True"

datatype 'a result = Normal 'a | Raise exn

text \<open>The broadcast commands of a node (the methods the supervisor calls on it).\<close>

datatype command =
    Alive
  | Restart
  | Stop
  | RespondsToPing real
  | ConsumingFrom
  | AddQueue queue_name
  | CancelQueue queue_name
  | Stats
  | Autoscale int int

datatype level = Debug | Info | Warn | Error

datatype logmsg =
    Started
  | WakeUp
  | Pausing
  | Resuming
  | BroadcastError
  | EventCausedException exn
  | NodeRestart node_key
  | PingWithTimeout node_key real
  | SuccessfullyRestarted node_key
  | NoResponseAfterRestart node_key
  | RestartedTooOften node_key
  | NodeShutdown node_key
  | ConsumeFrom node_key queue_name
  | CancelConsume node_key queue_name
  | SetAutoscale node_key int int

text \<open>
  What a run of the supervisor does to the outside, in order: commands sent to nodes,
  \<^verbatim>\<open>node.disable()\<close>, log lines, \<^verbatim>\<open>respond_to_ping()\<close>, the ready signal and
  \<^verbatim>\<open>event.send(value)\<close> on the completion event of a request.
\<close>

datatype event =
    Call node_key command
  | Disable node_key
  | Log level logmsg
  | RInfo logmsg
  | RespondToPing
  | SupervisorReady
  | Send nat bool

text \<open>
  The reply of the outside world to one call on a node: how many connection errors the
  call met before it went through (each one runs \<^verbatim>\<open>errback\<close>), whether the connection was
  revived (which runs \<^verbatim>\<open>on_revive\<close>), how long the call took, and the value returned, read
  by the caller according to the command: a truth value (\<^verbatim>\<open>alive\<close>, \<^verbatim>\<open>responds_to_ping\<close>),
  the keys of the \<^verbatim>\<open>consuming_from\<close> reply or \<open>None\<close>, the \<^verbatim>\<open>stats\<close> reply.
  The world answers the \<open>n\<close>-th call of a run with \<open>w n\<close>.
\<close>

record reply =
  conn_errors :: nat
  revived :: bool
  took :: real
  rbool :: bool
  rqueues :: "queue_name list option"
  rstats :: pyval

type_synonym world = "nat \<Rightarrow> reply"

text \<open>
  Modelled from the spec: \<^verbatim>\<open>celery.datastructures.TokenBucket\<close> is not part of the sources.
  A bucket of capacity 1 that starts full and refills at \<open>restart_max_rate\<close>, one token a
  minute; \<open>can_consume\<close> refills for the time elapsed, then takes a token if there is one.
\<close>

record token_bucket =
  tokens :: real
  timestamp :: real

definition restart_max_rate :: real where
  "restart_max_rate = 1 / 60"

definition new_bucket :: "real \<Rightarrow> token_bucket" where
  "new_bucket now = \<lparr>tokens = 1, timestamp = now\<rparr>"

definition get_tokens :: "real \<Rightarrow> token_bucket \<Rightarrow> token_bucket" where
  "get_tokens now b =
     (if tokens b < 1
      then \<lparr>tokens = min 1 (tokens b + restart_max_rate * (now - timestamp b)), timestamp = now\<rparr>
      else b)"

definition can_consume :: "real \<Rightarrow> token_bucket \<Rightarrow> bool \<times> token_bucket" where
  "can_consume now b =
     (let b' = get_tokens now b
      in if 1 \<le> tokens b' then (True, b'\<lparr>tokens := tokens b' - 1\<rparr>) else (False, b'))"

text \<open>
  The supervisor's state: the \<open>paused\<close> flag, the registry \<open>_buckets\<close>, the time the broker
  connection was last revived (\<^verbatim>\<open>state.broker_last_revived\<close>), the clock, and the number of
  calls made to the outside so far.
\<close>

record sup_state =
  paused :: bool
  buckets :: "node_key \<rightharpoonup> token_bucket"
  broker_last_revived :: "real option"
  clock :: real
  calls :: nat

definition wait_after_broker_revived :: real where
  "wait_after_broker_revived = 35"

section \<open>Procedures\<close>

text \<open>
  A procedure takes the state and gives a result (a value or a raised exception), the new
  state and the events it produced.
\<close>

type_synonym 'a prog = "sup_state \<Rightarrow> 'a result \<times> sup_state \<times> event list"

definition ret :: "'a \<Rightarrow> 'a prog" where
  "ret a s = (Normal a, s, [])"

definition raise :: "exn \<Rightarrow> 'a prog" where
  "raise e s = (Raise e, s, [])"

definition emit :: "event \<Rightarrow> unit prog" where
  "emit e s = (Normal (), s, [e])"

definition bind :: "'a prog \<Rightarrow> ('a \<Rightarrow> 'b prog) \<Rightarrow> 'b prog" where
  "bind m f s =
     (case m s of
        (Raise e, s', t) \<Rightarrow> (Raise e, s', t)
      | (Normal a, s', t) \<Rightarrow> (case f a s' of (r, s'', t') \<Rightarrow> (r, s'', t @ t')))"

definition seq :: "unit prog \<Rightarrow> 'b prog \<Rightarrow> 'b prog" where
  "seq m k = bind m (\<lambda>_. k)"

definition result_of :: "'a result \<times> sup_state \<times> event list \<Rightarrow> 'a result" where
  "result_of x = fst x"

definition state_of :: "'a result \<times> sup_state \<times> event list \<Rightarrow> sup_state" where
  "state_of x = fst (snd x)"

definition events_of :: "'a result \<times> sup_state \<times> event list \<Rightarrow> event list" where
  "events_of x = snd (snd x)"

subsection \<open>Pause, resume and insured calls\<close>

definition respond_to_ping :: "unit prog" where
  "respond_to_ping = emit RespondToPing"

definition pause :: "unit prog" where
  "pause = seq respond_to_ping
     (\<lambda>s. if \<not> paused s then (Normal (), s\<lparr>paused := True\<rparr>, [Log Debug Pausing])
          else (Normal (), s, []))"

definition resume :: "unit prog" where
  "resume = (\<lambda>s. if paused s then (Normal (), s\<lparr>paused := False\<rparr>, [Log Debug Resuming])
                 else (Normal (), s, []))"

definition errback :: "unit prog" where
  "errback = seq (emit (Log Error BroadcastError)) pause"

text \<open>
  Modelled from the spec: \<^verbatim>\<open>state.on_broker_revive\<close> (module \<^verbatim>\<open>scs.agent.state\<close>) is not
  part of the sources.  It records \<open>broker_last_revived = now()\<close> and resumes the supervisor.
\<close>

definition on_broker_revive :: "unit prog" where
  "on_broker_revive =
     seq (\<lambda>s. (Normal (), s\<lparr>broker_last_revived := Some (clock s)\<rparr>, [])) resume"

primrec repeat :: "nat \<Rightarrow> unit prog \<Rightarrow> unit prog" where
  "repeat 0 m = ret ()"
| "repeat (Suc k) m = seq m (repeat k m)"

text \<open>The next reply of the world; the call takes its time.\<close>

definition next_reply :: "world \<Rightarrow> reply prog" where
  "next_reply w s =
     (Normal (w (calls s)), s\<lparr>clock := clock s + took (w (calls s)), calls := Suc (calls s)\<rparr>, [])"

text \<open>\<^verbatim>\<open>blocking(fun)\<close>: the command is sent as it is.\<close>

definition blocking :: "world \<Rightarrow> node \<Rightarrow> command \<Rightarrow> reply prog" where
  "blocking w n c = bind (next_reply w) (\<lambda>r. seq (emit (Call (name n) c)) (ret r))"

text \<open>
  \<^verbatim>\<open>insured(node, fun, ...)\<close>: every connection error runs \<open>errback\<close>, which logs and pauses
  the supervisor; a revival runs \<open>on_revive\<close>; then the command goes through.
\<close>

definition insured :: "world \<Rightarrow> node \<Rightarrow> command \<Rightarrow> reply prog" where
  "insured w n c =
     bind (next_reply w) (\<lambda>r.
       seq (repeat (conn_errors r) errback)
         (seq (if revived r then on_broker_revive else ret ())
           (seq (emit (Call (name n) c)) (ret r))))"

definition ib :: "world \<Rightarrow> node \<Rightarrow> command \<Rightarrow> reply prog" where
  "ib w n c = insured w n c"

subsection \<open>Restarting and stopping a node\<close>

text \<open>
  Modelled from the spec: \<^verbatim>\<open>kombu.utils.fxrangemax\<close> is not part of the sources.  The
  schedule starts at \<open>start\<close>, grows by \<open>step\<close>, is capped at \<open>stop\<close> and has at most
  \<open>max\<close> steps.
\<close>

fun fxrangemax :: "real \<Rightarrow> real \<Rightarrow> real \<Rightarrow> nat \<Rightarrow> real list" where
  "fxrangemax cur stop step 0 = []"
| "fxrangemax cur stop step (Suc k) = cur # fxrangemax (min (cur + step) stop) stop step k"

definition ping_schedule :: "real list" where
  "ping_schedule = fxrangemax (1 / 10) 1 (4 / 10) 30"

text \<open>
  The loop of \<^verbatim>\<open>_verify_restart_node\<close> over the timeouts; its value is \<^verbatim>\<open>is_alive\<close>, and a
  true reply leaves the loop.
\<close>

fun ping_loop :: "world \<Rightarrow> node \<Rightarrow> real list \<Rightarrow> bool prog" where
  "ping_loop w n [] = ret False"
| "ping_loop w n (i # is) =
     seq (emit (Log Info (PingWithTimeout (name n) i)))
       (seq respond_to_ping
         (bind (insured w n (RespondsToPing i))
           (\<lambda>r. if rbool r then ret True else ping_loop w n is)))"

definition verify_restart_sched :: "real list \<Rightarrow> world \<Rightarrow> node \<Rightarrow> unit prog" where
  "verify_restart_sched sched w n =
     seq (emit (Log Warn (NodeRestart (name n))))
       (bind (blocking w n Restart) (\<lambda>_.
         bind (ping_loop w n sched) (\<lambda>is_alive.
           if is_alive then emit (Log Warn (SuccessfullyRestarted (name n)))
           else emit (Log Warn (NoResponseAfterRestart (name n))))))"

definition verify_restart_node :: "world \<Rightarrow> node \<Rightarrow> unit prog" where
  "verify_restart_node = verify_restart_sched ping_schedule"

text \<open>
  \<^verbatim>\<open>_can_restart\<close>.  Modelled from the spec: \<^verbatim>\<open>state.time_since_broker_revived\<close> is not part
  of the sources; it is the time elapsed since \<open>broker_last_revived\<close>.
\<close>

definition can_restart :: "sup_state \<Rightarrow> bool" where
  "can_restart s =
     (case broker_last_revived s of
        None \<Rightarrow> True
      | Some t \<Rightarrow> clock s - t > wait_after_broker_revived)"

text \<open>
  The registry is a \<^verbatim>\<open>defaultdict\<close>: reading a missing key stores a new bucket.  The bucket
  read stays the object in the registry, so consuming from it updates the registry's entry.
\<close>

definition get_bucket :: "node_key \<Rightarrow> token_bucket prog" where
  "get_bucket k s =
     (case buckets s k of
        Some b \<Rightarrow> (Normal b, s, [])
      | None \<Rightarrow> (Normal (new_bucket (clock s)),
                 s\<lparr>buckets := (buckets s)(k \<mapsto> new_bucket (clock s))\<rparr>, []))"

definition consume :: "node_key \<Rightarrow> token_bucket \<Rightarrow> bool prog" where
  "consume k b s =
     (Normal (fst (can_consume (clock s) b)),
      s\<lparr>buckets := (buckets s)(k \<mapsto> snd (can_consume (clock s) b))\<rparr>, [])"

definition pop_bucket :: "node_key \<Rightarrow> unit prog" where
  "pop_bucket k s =
     (case buckets s k of
        None \<Rightarrow> (Raise (KeyError k), s, [])
      | Some _ \<Rightarrow> (Normal (), s\<lparr>buckets := (buckets s)(k := None)\<rparr>, []))"

definition pop_bucket_default :: "node_key \<Rightarrow> unit prog" where
  "pop_bucket_default k s = (Normal (), s\<lparr>buckets := (buckets s)(k := None)\<rparr>, [])"

definition do_restart_node :: "world \<Rightarrow> node \<Rightarrow> bool \<Rightarrow> unit prog" where
  "do_restart_node w n ratelimit =
     bind (get_bucket (name n)) (\<lambda>bucket.
       if ratelimit then
         (\<lambda>s. if can_restart s then
                 bind (consume (name n) bucket) (\<lambda>ok.
                   if ok then verify_restart_node w n
                   else seq (emit (Log Error (RestartedTooOften (name n))))
                          (seq (emit (Disable (name n))) (pop_bucket (name n)))) s
               else ret () s)
       else seq (pop_bucket_default (name n)) (verify_restart_node w n))"

definition do_stop_node :: "world \<Rightarrow> node \<Rightarrow> unit prog" where
  "do_stop_node w n =
     seq (emit (Log Warn (NodeShutdown (name n))))
       (bind (blocking w n Stop) (\<lambda>_. ret ()))"

subsection \<open>Verifying a node\<close>

text \<open>
  Subscription \<^verbatim>\<open>v[k]\<close>: a \<^verbatim>\<open>KeyError\<close> for a missing key, a \<^verbatim>\<open>TypeError\<close> for a value
  that is no dictionary.
\<close>

fun getitem :: "pyval \<Rightarrow> string \<Rightarrow> pyval prog" where
  "getitem (PyDict d) k = (case map_of d k of None \<Rightarrow> raise (KeyError k) | Some v \<Rightarrow> ret v)"
| "getitem v k = raise TypeError"

text \<open>\<^verbatim>\<open>try: ... except (TypeError, KeyError): return\<close>, with the rest of the function after it.\<close>

fun is_TypeError_or_KeyError :: "exn \<Rightarrow> bool" where
  "is_TypeError_or_KeyError TypeError = True"
| "is_TypeError_or_KeyError (KeyError _) = True"
| "is_TypeError_or_KeyError _ = False"

definition try_or_return :: "'a prog \<Rightarrow> ('a \<Rightarrow> unit prog) \<Rightarrow> unit prog" where
  "try_or_return m f s =
     (case m s of
        (Raise e, s', t) \<Rightarrow>
          if is_TypeError_or_KeyError e then (Normal (), s', t) else (Raise e, s', t)
      | (Normal a, s', t) \<Rightarrow> (case f a s' of (r, s'', t') \<Rightarrow> (r, s'', t @ t')))"

definition verify_node_processes :: "world \<Rightarrow> node \<Rightarrow> unit prog" where
  "verify_node_processes w n =
     try_or_return
       (bind (insured w n Stats) (\<lambda>r. getitem (rstats r) ''autoscaler''))
       (\<lambda>current.
          bind (bind (getitem current ''max'') (\<lambda>cmax.
                  if PyInt (max_concurrency n) \<noteq> cmax then ret True
                  else bind (getitem current ''min'') (\<lambda>cmin.
                         ret (PyInt (min_concurrency n) \<noteq> cmin))))
            (\<lambda>differs.
               if differs then
                 seq (emit (Log Warn (SetAutoscale (name n) (max_concurrency n) (min_concurrency n))))
                   (bind (ib w n (Autoscale (max_concurrency n) (min_concurrency n)))
                      (\<lambda>_. ret ()))
               else ret ()))"

text \<open>
  \<^verbatim>\<open>consuming_from ^ queues\<close>, the symmetric difference of the two sets.  Python iterates a
  set in an order of its own; here the observed queues come first.
\<close>

definition symmetric_difference :: "queue_name list \<Rightarrow> queue_name list \<Rightarrow> queue_name list" where
  "symmetric_difference consuming_from qs =
     filter (\<lambda>q. q \<notin> set qs) (remdups consuming_from) @
     filter (\<lambda>q. q \<notin> set consuming_from) (remdups qs)"

primrec for_each :: "'a list \<Rightarrow> ('a \<Rightarrow> unit prog) \<Rightarrow> unit prog" where
  "for_each [] body = ret ()"
| "for_each (x # xs) body = seq (body x) (for_each xs body)"

definition verify_queue :: "world \<Rightarrow> node \<Rightarrow> queue_name \<Rightarrow> unit prog" where
  "verify_queue w n queue =
     (if queue \<in> set (queues n) then
        seq (emit (Log Warn (ConsumeFrom (name n) queue)))
          (bind (ib w n (AddQueue queue)) (\<lambda>_. ret ()))
      else if queue = direct_queue n then ret ()
      else
        seq (emit (Log Warn (CancelConsume (name n) queue)))
          (bind (ib w n (CancelQueue queue)) (\<lambda>_. ret ())))"

definition verify_node_queues :: "world \<Rightarrow> node \<Rightarrow> unit prog" where
  "verify_node_queues w n =
     bind (ib w n ConsumingFrom) (\<lambda>r.
       case rqueues r of
         None \<Rightarrow> ret ()
       | Some consuming_from \<Rightarrow>
           for_each (symmetric_difference consuming_from (queues n)) (verify_queue w n))"

text \<open>\<^verbatim>\<open>node.is_enabled and node.pk\<close>: a primary key of \<open>None\<close> or \<open>0\<close> counts as false.\<close>

definition enabled_and_saved :: "node \<Rightarrow> bool" where
  "enabled_and_saved n = (is_enabled n \<and> pk n \<noteq> None \<and> pk n \<noteq> Some 0)"

definition do_verify_node :: "world \<Rightarrow> node \<Rightarrow> bool \<Rightarrow> unit prog" where
  "do_verify_node w n ratelimit s =
     (if \<not> paused s then
        (if enabled_and_saved n then
           bind (ib w n Alive) (\<lambda>r.
             seq (if \<not> rbool r then do_restart_node w n ratelimit else ret ())
               (seq (verify_node_processes w n) (verify_node_queues w n))) s
         else
           bind (ib w n Alive) (\<lambda>r. if rbool r then do_stop_node w n else ret ()) s)
      else ret () s)"

subsection \<open>Requests and the main loop\<close>

text \<open>
  A request is the tuple \<^verbatim>\<open>(nodes, event, action, kwargs)\<close> put on the queue.  The keyword
  arguments are bound as Python binds them: \<^verbatim>\<open>ratelimit\<close> defaults to false, and a keyword
  the action does not have raises \<^verbatim>\<open>TypeError\<close>.
\<close>

type_synonym kwargs = "(string \<times> bool) list"

record request =
  nodes :: "node list"
  event :: nat
  action :: "node \<Rightarrow> kwargs \<Rightarrow> unit prog"
  kwargs :: kwargs

definition with_ratelimit :: "(bool \<Rightarrow> unit prog) \<Rightarrow> kwargs \<Rightarrow> unit prog" where
  "with_ratelimit f kw =
     (if list_ex (\<lambda>(k, v). k \<noteq> ''ratelimit'') kw then raise TypeError
      else case map_of kw ''ratelimit'' of None \<Rightarrow> f False | Some b \<Rightarrow> f b)"

definition without_kwargs :: "unit prog \<Rightarrow> kwargs \<Rightarrow> unit prog" where
  "without_kwargs f kw = (if kw = [] then f else raise TypeError)"

definition new_request :: "request list \<Rightarrow> node list \<Rightarrow> (node \<Rightarrow> kwargs \<Rightarrow> unit prog) \<Rightarrow> kwargs \<Rightarrow> nat
    \<Rightarrow> request list" where
  "new_request queue ns act kw ev = queue @ [\<lparr>nodes = ns, event = ev, action = act, kwargs = kw\<rparr>]"

definition verify :: "world \<Rightarrow> request list \<Rightarrow> node list \<Rightarrow> bool \<Rightarrow> nat \<Rightarrow> request list" where
  "verify w queue ns ratelimit ev =
     new_request queue ns (\<lambda>n. with_ratelimit (do_verify_node w n)) [(''ratelimit'', ratelimit)] ev"

definition restart :: "world \<Rightarrow> request list \<Rightarrow> node list \<Rightarrow> nat \<Rightarrow> request list" where
  "restart w queue ns ev =
     new_request queue ns (\<lambda>n. with_ratelimit (do_restart_node w n)) [] ev"

definition shutdown :: "world \<Rightarrow> request list \<Rightarrow> node list \<Rightarrow> nat \<Rightarrow> request list" where
  "shutdown w queue ns ev =
     new_request queue ns (\<lambda>n. without_kwargs (do_stop_node w n)) [] ev"

text \<open>\<^verbatim>\<open>try: action(node, **kwargs) except Exception, exc: self.error(...)\<close>\<close>

definition try_action :: "unit prog \<Rightarrow> unit prog" where
  "try_action m s =
     (case m s of
        (Raise e, s', t) \<Rightarrow>
          if is_Exception e then (Normal (), s', t @ [Log Error (EventCausedException e)])
          else (Raise e, s', t)
      | (Normal a, s', t) \<Rightarrow> (Normal a, s', t))"

text \<open>\<^verbatim>\<open>try: body finally: handler\<close>: the handler runs whatever the body did.\<close>

definition try_finally :: "unit prog \<Rightarrow> unit prog \<Rightarrow> unit prog" where
  "try_finally body handler s =
     (case body s of
        (r, s', t) \<Rightarrow>
          (case handler s' of
             (Normal _, s'', t') \<Rightarrow> (r, s'', t @ t')
           | (Raise e, s'', t') \<Rightarrow> (Raise e, s'', t @ t')))"

definition process_request :: "request \<Rightarrow> unit prog" where
  "process_request r =
     seq respond_to_ping
       (seq (emit (RInfo WakeUp))
         (try_finally
            (for_each (nodes r) (\<lambda>n. try_action (action r n (kwargs r))))
            (emit (Send (event r) True))))"

text \<open>
  The loop of \<^verbatim>\<open>run\<close>, over what \<^verbatim>\<open>queue.get(timeout=1)\<close> gave until \<^verbatim>\<open>should_stop\<close> was
  set: a request, or \<^verbatim>\<open>Empty\<close> after the timeout.
\<close>

datatype dequeued = Empty | Request request

fun run_loop :: "dequeued list \<Rightarrow> unit prog" where
  "run_loop [] = ret ()"
| "run_loop (Empty # ds) = seq respond_to_ping (run_loop ds)"
| "run_loop (Request r # ds) = seq (process_request r) (run_loop ds)"

definition run :: "dequeued list \<Rightarrow> unit prog" where
  "run ds = seq (emit (Log Info Started)) (seq (emit SupervisorReady) (run_loop ds))"

section \<open>Reading a run\<close>

text \<open>
  The commands sent to nodes in a list of events, the nodes disabled, and the log lines of
  a level, each in order.
\<close>

fun calls_in :: "event list \<Rightarrow> (node_key \<times> command) list" where
  "calls_in [] = []"
| "calls_in (Call k c # t) = (k, c) # calls_in t"
| "calls_in (e # t) = calls_in t"

fun disables :: "event list \<Rightarrow> node_key list" where
  "disables [] = []"
| "disables (Disable k # t) = k # disables t"
| "disables (e # t) = disables t"

fun logs_at :: "level \<Rightarrow> event list \<Rightarrow> logmsg list" where
  "logs_at l [] = []"
| "logs_at l (Log l' m # t) = (if l = l' then m # logs_at l t else logs_at l t)"
| "logs_at l (e # t) = logs_at l t"

text \<open>
  Against a world whose replies to the pings start at call \<open>c\<close>: how many pings of a
  schedule are sent when the loop stops at the first true reply, and whether a ping of the
  schedule gets a true reply.
\<close>

fun attempts :: "world \<Rightarrow> nat \<Rightarrow> 'a list \<Rightarrow> nat" where
  "attempts w c [] = 0"
| "attempts w c (i # is) = (if rbool (w c) then 1 else Suc (attempts w (Suc c) is))"

fun answered :: "world \<Rightarrow> nat \<Rightarrow> 'a list \<Rightarrow> bool" where
  "answered w c [] = False"
| "answered w c (i # is) = (rbool (w c) \<or> answered w (Suc c) is)"

text \<open>The bucket that \<^verbatim>\<open>self._buckets[node.restart]\<close> gives in a state.\<close>

definition bucket_of :: "node_key \<Rightarrow> sup_state \<Rightarrow> token_bucket" where
  "bucket_of k s = (case buckets s k of Some b \<Rightarrow> b | None \<Rightarrow> new_bucket (clock s))"

text \<open>
  Sample inputs: worlds that answer every call the same way, two nodes, and states at time
  100 with an empty registry, with the broker revived 10 seconds ago, and with a bucket
  emptied 5 seconds ago.
\<close>

definition w_up :: world where
  "w_up = (\<lambda>i. \<lparr>conn_errors = 0, revived = False, took = 1, rbool = True, rqueues = None,
                 rstats = PyNone\<rparr>)"

definition w_dead :: world where
  "w_dead = (\<lambda>i. \<lparr>conn_errors = 0, revived = False, took = 1, rbool = False, rqueues = None,
                   rstats = PyNone\<rparr>)"

definition node1 :: node where
  "node1 = \<lparr>name = ''n1'', pk = Some 1, is_enabled = True, queues = [''q1'', ''q2''],
            direct_queue = ''d'', max_concurrency = 10, min_concurrency = 2\<rparr>"

definition s_init :: sup_state where
  "s_init = \<lparr>paused = False, buckets = Map.empty, broker_last_revived = None, clock = 100,
             calls = 0\<rparr>"

definition s_cooling :: sup_state where
  "s_cooling = s_init\<lparr>broker_last_revived := Some 90\<rparr>"

definition s_spent :: sup_state where
  "s_spent = s_init\<lparr>buckets := [''n1'' \<mapsto> \<lparr>tokens = 0, timestamp = 95\<rparr>]\<rparr>"

definition w_third :: world where
  "w_third = (\<lambda>i. \<lparr>conn_errors = 0, revived = False, took = 1, rbool = (3 \<le> i), rqueues = None,
                    rstats = PyNone\<rparr>)"

definition w_consuming :: "queue_name list \<Rightarrow> world" where
  "w_consuming obs = (\<lambda>i. \<lparr>conn_errors = 0, revived = False, took = 1, rbool = True,
                           rqueues = Some obs, rstats = PyNone\<rparr>)"

definition w_stats :: "pyval \<Rightarrow> world" where
  "w_stats v = (\<lambda>i. \<lparr>conn_errors = 0, revived = False, took = 1, rbool = True,
                     rqueues = None, rstats = v\<rparr>)"

definition node2 :: node where
  "node2 = \<lparr>name = ''n2'', pk = Some 2, is_enabled = True, queues = [''q1''],
            direct_queue = ''d'', max_concurrency = 4, min_concurrency = 1\<rparr>"

text \<open>
  The events of the loop over the nodes as the specification words it: the action is run
  on each node in turn, in the state the nodes before it left; an exception it raises is
  logged and the loop goes on to the next node.
\<close>

fun every_node_events :: "(node \<Rightarrow> kwargs \<Rightarrow> unit prog) \<Rightarrow> kwargs \<Rightarrow> node list \<Rightarrow> sup_state
    \<Rightarrow> event list" where
  "every_node_events act kw [] s = []"
| "every_node_events act kw (n # ns) s =
     events_of (act n kw s) @
     (case result_of (act n kw s) of
        Raise e \<Rightarrow> [Log Error (EventCausedException e)]
      | Normal _ \<Rightarrow> []) @
     every_node_events act kw ns (state_of (act n kw s))"

definition w_no_bounds :: world where
  "w_no_bounds = w_stats (PyDict [(''autoscaler'', PyDict [])])"

definition exit_action :: "node \<Rightarrow> kwargs \<Rightarrow> unit prog" where
  "exit_action n kw =
     (if name n = ''n1'' then raise (BaseExceptionOf ''GreenletExit'')
      else emit (Call (name n) Alive))"

definition r_exit :: request where
  "r_exit = \<lparr>nodes = [node1, node2], event = 7, action = exit_action, kwargs = []\<rparr>"

text \<open>
  A procedure is tame when it never sends on a completion event and raises nothing but
  exceptions of class \<^verbatim>\<open>Exception\<close>.
\<close>

definition tame :: "'a prog \<Rightarrow> bool" where
  "tame m = (\<forall>s. (\<forall>ev v. Send ev v \<notin> set (events_of (m s))) \<and>
                 (\<forall>e. result_of (m s) = Raise e \<longrightarrow> is_Exception e))"

named_theorems tame_intros

definition s_paused :: sup_state where
  "s_paused = s_init\<lparr>paused := True\<rparr>"

text \<open>
  Two states agree apart from the \<open>paused\<close> flag; the events of a run apart from the two
  debug lines that \<open>pause\<close> and \<open>resume\<close> write when they change the flag.
\<close>

definition same_but_paused :: "sup_state \<Rightarrow> sup_state \<Rightarrow> bool" where
  "same_but_paused s1 s2 =
     (buckets s1 = buckets s2 \<and> broker_last_revived s1 = broker_last_revived s2 \<and>
      clock s1 = clock s2 \<and> calls s1 = calls s2)"

definition visible :: "event list \<Rightarrow> event list" where
  "visible t = filter (\<lambda>e. e \<noteq> Log Debug Pausing \<and> e \<noteq> Log Debug Resuming) t"

definition pause_blind :: "'a prog \<Rightarrow> bool" where
  "pause_blind m =
     (\<forall>s1 s2. same_but_paused s1 s2 \<longrightarrow>
        result_of (m s1) = result_of (m s2) \<and>
        same_but_paused (state_of (m s1)) (state_of (m s2)) \<and>
        visible (events_of (m s1)) = visible (events_of (m s2)))"

named_theorems blind_intros

section \<open>Properties\<close>

lemma calls_in_append [simp]: "calls_in (t @ t') = calls_in t @ calls_in t'"
  by (induction t rule: calls_in.induct) simp_all

lemma Call_in_events: "Call k c \<in> set t \<longleftrightarrow> (k, c) \<in> set (calls_in t)"
  by (induction t rule: calls_in.induct) auto

lemma count_Call: "count_list t (Call k c) = count_list (calls_in t) (k, c)"
  by (induction t rule: calls_in.induct) auto

lemma result_of_bind:
  "result_of (bind m f s) =
     (case result_of (m s) of Raise e \<Rightarrow> Raise e | Normal a \<Rightarrow> result_of (f a (state_of (m s))))"
  by (simp add: bind_def result_of_def state_of_def split: prod.splits result.splits)

lemma state_of_bind:
  "state_of (bind m f s) =
     (case result_of (m s) of Raise e \<Rightarrow> state_of (m s) | Normal a \<Rightarrow> state_of (f a (state_of (m s))))"
  by (simp add: bind_def result_of_def state_of_def split: prod.splits result.splits)

lemma events_of_bind:
  "events_of (bind m f s) =
     events_of (m s) @
     (case result_of (m s) of Raise e \<Rightarrow> [] | Normal a \<Rightarrow> events_of (f a (state_of (m s))))"
  by (simp add: bind_def result_of_def state_of_def events_of_def split: prod.splits result.splits)

lemma result_of_seq:
  "result_of (seq m k s) =
     (case result_of (m s) of Raise e \<Rightarrow> Raise e | Normal a \<Rightarrow> result_of (k (state_of (m s))))"
  by (simp add: seq_def result_of_bind)

lemma state_of_seq:
  "state_of (seq m k s) =
     (case result_of (m s) of Raise e \<Rightarrow> state_of (m s) | Normal a \<Rightarrow> state_of (k (state_of (m s))))"
  by (simp add: seq_def state_of_bind)

lemma events_of_seq:
  "events_of (seq m k s) =
     events_of (m s) @
     (case result_of (m s) of Raise e \<Rightarrow> [] | Normal a \<Rightarrow> events_of (k (state_of (m s))))"
  by (simp add: seq_def events_of_bind)

lemmas proj_simps = result_of_bind state_of_bind events_of_bind result_of_seq state_of_seq events_of_seq

lemma ret_proj [simp]:
  "result_of (ret a s) = Normal a" "state_of (ret a s) = s" "events_of (ret a s) = []"
  by (simp_all add: ret_def result_of_def state_of_def events_of_def)

lemma raise_proj [simp]:
  "result_of (raise e s) = Raise e" "state_of (raise e s) = s" "events_of (raise e s) = []"
  by (simp_all add: raise_def result_of_def state_of_def events_of_def)

lemma emit_proj [simp]:
  "result_of (emit e s) = Normal ()" "state_of (emit e s) = s" "events_of (emit e s) = [e]"
  by (simp_all add: emit_def result_of_def state_of_def events_of_def)

lemma tuple_proj [simp]:
  "result_of (r, s, t) = r" "state_of (r, s, t) = s" "events_of (r, s, t) = t"
  by (simp_all add: result_of_def state_of_def events_of_def)

lemma prog_eqI:
  "result_of x = result_of y \<Longrightarrow> state_of x = state_of y \<Longrightarrow> events_of x = events_of y \<Longrightarrow> x = y"
  by (cases x; cases y) (simp add: result_of_def state_of_def events_of_def)

lemma pause_proj:
  "result_of (pause s) = Normal ()"
  "state_of (pause s) = s\<lparr>paused := True\<rparr>"
  "calls_in (events_of (pause s)) = []"
  by (simp_all add: pause_def respond_to_ping_def proj_simps)

lemma resume_proj:
  "result_of (resume s) = Normal ()"
  "state_of (resume s) = s\<lparr>paused := False\<rparr>"
  "calls_in (events_of (resume s)) = []"
  by (simp_all add: resume_def)

lemma errback_proj:
  "result_of (errback s) = Normal ()"
  "state_of (errback s) = s\<lparr>paused := True\<rparr>"
  "calls_in (events_of (errback s)) = []"
  by (simp_all add: errback_def proj_simps pause_proj)

lemma repeat_errback_proj:
  "result_of (repeat k errback s) = Normal ()"
  "state_of (repeat k errback s) = (if k = 0 then s else s\<lparr>paused := True\<rparr>)"
  "calls_in (events_of (repeat k errback s)) = []"
  by (induction k arbitrary: s; simp add: proj_simps errback_proj)+

lemma on_broker_revive_proj:
  "result_of (on_broker_revive s) = Normal ()"
  "state_of (on_broker_revive s) = s\<lparr>broker_last_revived := Some (clock s), paused := False\<rparr>"
  "calls_in (events_of (on_broker_revive s)) = []"
  by (simp_all add: on_broker_revive_def proj_simps resume_proj)

lemma next_reply_proj [simp]:
  "result_of (next_reply w s) = Normal (w (calls s))"
  "state_of (next_reply w s) = s\<lparr>clock := clock s + took (w (calls s)), calls := Suc (calls s)\<rparr>"
  "events_of (next_reply w s) = []"
  by (simp_all add: next_reply_def)

lemma blocking_proj:
  "result_of (blocking w n c s) = Normal (w (calls s))"
  "state_of (blocking w n c s) = s\<lparr>clock := clock s + took (w (calls s)), calls := Suc (calls s)\<rparr>"
  "events_of (blocking w n c s) = [Call (name n) c]"
  by (simp_all add: blocking_def proj_simps)

lemma insured_proj:
  "result_of (insured w n c s) = Normal (w (calls s))"
  "calls_in (events_of (insured w n c s)) = [(name n, c)]"
  "calls (state_of (insured w n c s)) = Suc (calls s)"
  "buckets (state_of (insured w n c s)) = buckets s"
  "clock (state_of (insured w n c s)) = clock s + took (w (calls s))"
  by (simp_all add: insured_def proj_simps repeat_errback_proj on_broker_revive_proj)

lemma disables_append [simp]: "disables (t @ t') = disables t @ disables t'"
  by (induction t rule: disables.induct) simp_all

lemma Disable_in_events: "Disable k \<in> set t \<longleftrightarrow> k \<in> set (disables t)"
  by (induction t rule: disables.induct) auto

lemma count_Disable: "count_list t (Disable k) = count_list (disables t) k"
  by (induction t rule: disables.induct) auto

lemma logs_at_append [simp]: "logs_at l (t @ t') = logs_at l t @ logs_at l t'"
  by (induction l t rule: logs_at.induct) simp_all

lemma Log_in_events: "Log l m \<in> set t \<longleftrightarrow> m \<in> set (logs_at l t)"
  by (induction l t rule: logs_at.induct) auto

lemma insured_quiet:
  "disables (events_of (insured w n c s)) = []"
  "logs_at Warn (events_of (insured w n c s)) = []"
proof -
  have rep: "disables (events_of (repeat k errback s')) = [] \<and>
             logs_at Warn (events_of (repeat k errback s')) = []" for k s'
    by (induction k arbitrary: s')
       (simp_all add: proj_simps errback_def pause_def respond_to_ping_def errback_proj)
  show "disables (events_of (insured w n c s)) = []"
    by (simp add: insured_def proj_simps rep repeat_errback_proj on_broker_revive_proj
        on_broker_revive_def resume_def)
  show "logs_at Warn (events_of (insured w n c s)) = []"
    by (simp add: insured_def proj_simps rep repeat_errback_proj on_broker_revive_proj
        on_broker_revive_def resume_def)
qed

lemma ping_loop_proj:
  "result_of (ping_loop w n sched s) = Normal (answered w (calls s) sched)"
  "calls_in (events_of (ping_loop w n sched s)) =
     map (\<lambda>i. (name n, RespondsToPing i)) (take (attempts w (calls s) sched) sched)"
  "calls (state_of (ping_loop w n sched s)) = calls s + attempts w (calls s) sched"
  "buckets (state_of (ping_loop w n sched s)) = buckets s"
  "disables (events_of (ping_loop w n sched s)) = []"
  "logs_at Warn (events_of (ping_loop w n sched s)) = []"
  by (induction sched arbitrary: s;
      simp add: proj_simps insured_proj insured_quiet respond_to_ping_def)+

lemma verify_restart_sched_proj:
  "result_of (verify_restart_sched sched w n s) = Normal ()"
  "calls_in (events_of (verify_restart_sched sched w n s)) =
     (name n, Restart) #
     map (\<lambda>i. (name n, RespondsToPing i)) (take (attempts w (Suc (calls s)) sched) sched)"
  "buckets (state_of (verify_restart_sched sched w n s)) = buckets s"
  "disables (events_of (verify_restart_sched sched w n s)) = []"
  "logs_at Warn (events_of (verify_restart_sched sched w n s)) =
     [NodeRestart (name n),
      if answered w (Suc (calls s)) sched then SuccessfullyRestarted (name n)
      else NoResponseAfterRestart (name n)]"
  by (simp_all add: verify_restart_sched_def proj_simps blocking_proj ping_loop_proj)

lemma do_restart_node_unlimited:
  "do_restart_node w n False s =
     verify_restart_node w n (s\<lparr>buckets := (buckets s)(name n := None)\<rparr>)"
  by (simp add: do_restart_node_def bind_def seq_def get_bucket_def pop_bucket_default_def
      split: option.splits prod.splits result.splits)

lemma do_restart_node_deferred:
  "\<not> can_restart s \<Longrightarrow>
   do_restart_node w n True s =
     (Normal (), s\<lparr>buckets := (buckets s)(name n \<mapsto> bucket_of (name n) s)\<rparr>, [])"
  by (auto simp add: do_restart_node_def bind_def get_bucket_def can_restart_def ret_def
      bucket_of_def map_upd_triv split: option.splits)

lemma do_restart_node_token:
  "can_restart s \<Longrightarrow> fst (can_consume (clock s) (bucket_of (name n) s)) \<Longrightarrow>
   do_restart_node w n True s =
     verify_restart_node w n
       (s\<lparr>buckets := (buckets s)(name n \<mapsto> snd (can_consume (clock s) (bucket_of (name n) s)))\<rparr>)"
  by (simp add: do_restart_node_def bind_def get_bucket_def can_restart_def consume_def bucket_of_def
      split: option.splits prod.splits result.splits)

lemma do_restart_node_denied:
  "can_restart s \<Longrightarrow> \<not> fst (can_consume (clock s) (bucket_of (name n) s)) \<Longrightarrow>
   do_restart_node w n True s =
     (Normal (), s\<lparr>buckets := (buckets s)(name n := None)\<rparr>,
      [Log Error (RestartedTooOften (name n)), Disable (name n)])"
  by (simp add: do_restart_node_def bind_def seq_def get_bucket_def can_restart_def consume_def
      bucket_of_def emit_def pop_bucket_def
      split: option.splits prod.splits result.splits)

text \<open>
  Claim C1.  A call of \<open>do_restart_node\<close> sends the restart command to the node exactly when
  the call is not rate-limited, or the broker gate is open (\<open>can_restart\<close>: the connection
  was never revived, or more than \<open>wait_after_broker_revived\<close> = 35 seconds ago) and the
  node's bucket gives a token.  A rate-limited call inside the cool-down sends no command at
  all.
\<close>

theorem restart_only_if_permitted:
  "(Call k Restart \<in> set (events_of (do_restart_node w n ratelimit s)) \<longleftrightarrow>
      k = name n \<and>
      (\<not> ratelimit \<or>
       (can_restart s \<and> fst (can_consume (clock s) (bucket_of (name n) s))))) \<and>
   (can_restart s \<longleftrightarrow>
      (case broker_last_revived s of None \<Rightarrow> True
       | Some t \<Rightarrow> clock s - t > wait_after_broker_revived)) \<and>
   wait_after_broker_revived = 35 \<and>
   (ratelimit \<and> \<not> can_restart s \<longrightarrow>
      calls_in (events_of (do_restart_node w n ratelimit s)) = [])"
proof (cases ratelimit)
  case False
  then show ?thesis
    by (auto simp add: do_restart_node_unlimited verify_restart_node_def Call_in_events
        verify_restart_sched_proj can_restart_def wait_after_broker_revived_def)
next
  case rl: True
  show ?thesis
  proof (cases "can_restart s")
    case False
    with rl show ?thesis
      by (auto simp add: do_restart_node_deferred can_restart_def wait_after_broker_revived_def)
  next
    case cr: True
    show ?thesis
    proof (cases "fst (can_consume (clock s) (bucket_of (name n) s))")
      case True
      with rl cr show ?thesis
        by (auto simp add: do_restart_node_token verify_restart_node_def Call_in_events
            verify_restart_sched_proj can_restart_def wait_after_broker_revived_def)
    next
      case False
      with rl cr show ?thesis
        by (auto simp add: do_restart_node_denied can_restart_def wait_after_broker_revived_def)
    qed
  qed
qed

lemma can_restart_s_cooling: "\<not> can_restart s_cooling"
  by (simp add: can_restart_def s_cooling_def s_init_def wait_after_broker_revived_def)

lemma can_restart_s_init: "can_restart s_init"
  by (simp add: can_restart_def s_init_def)

lemma token_s_init: "fst (can_consume (clock s_init) (bucket_of (name node1) s_init))"
  by (simp add: can_consume_def get_tokens_def bucket_of_def s_init_def new_bucket_def)

theorem restart_only_if_permitted_witness:
  "Call ''n1'' Restart \<in> set (events_of (do_restart_node w_up node1 True s_init)) \<and>
   Call ''n1'' Restart \<in> set (events_of (do_restart_node w_up node1 False s_cooling)) \<and>
   Call ''n1'' Restart \<notin> set (events_of (do_restart_node w_up node1 True s_cooling)) \<and>
   calls_in (events_of (do_restart_node w_up node1 True s_cooling)) = []"
  using restart_only_if_permitted [of "''n1''" w_up node1 True s_init]
    restart_only_if_permitted [of "''n1''" w_up node1 False s_cooling]
    restart_only_if_permitted [of "''n1''" w_up node1 True s_cooling]
    can_restart_s_cooling can_restart_s_init token_s_init
  by (simp add: node1_def)

text \<open>
  Claim C3.  A rate-limited call of \<open>do_restart_node\<close> with the gate open and the token
  denied calls \<^verbatim>\<open>node.disable()\<close> exactly once, removes the node's bucket from the registry
  and sends no command, so no restart.
\<close>

theorem disable_on_exhaustion:
  assumes "can_restart s"
    and "\<not> fst (can_consume (clock s) (bucket_of (name n) s))"
  shows "count_list (events_of (do_restart_node w n True s)) (Disable (name n)) = 1 \<and>
         buckets (state_of (do_restart_node w n True s)) (name n) = None \<and>
         calls_in (events_of (do_restart_node w n True s)) = [] \<and>
         result_of (do_restart_node w n True s) = Normal ()"
  using assms by (simp add: do_restart_node_denied)

lemma no_token_s_spent: "\<not> fst (can_consume (clock s_spent) (bucket_of (name node1) s_spent))"
  by (simp add: can_consume_def get_tokens_def bucket_of_def s_spent_def s_init_def node1_def
      restart_max_rate_def)

lemma can_restart_s_spent: "can_restart s_spent"
  by (simp add: can_restart_def s_spent_def s_init_def)

theorem disable_on_exhaustion_witness:
  "count_list (events_of (do_restart_node w_up node1 True s_spent)) (Disable ''n1'') = 1 \<and>
   buckets (state_of (do_restart_node w_up node1 True s_spent)) ''n1'' = None \<and>
   calls_in (events_of (do_restart_node w_up node1 True s_spent)) = []"
  using disable_on_exhaustion [OF can_restart_s_spent no_token_s_spent, of w_up]
  by (simp add: node1_def)

lemma ping_schedule_eq: "ping_schedule = [1 / 10, 1 / 2, 9 / 10] @ replicate 27 1"
  by (simp add: ping_schedule_def numeral_eq_Suc)

lemma attempts_le: "attempts w c sched \<le> length sched"
  by (induction sched arbitrary: c) auto

lemma attempts_pos: "sched \<noteq> [] \<Longrightarrow> 0 < attempts w c sched"
  by (cases sched) auto

lemma attempts_first_true:
  "answered w c sched \<Longrightarrow> rbool (w (c + (attempts w c sched - 1)))"
proof (induction sched arbitrary: c)
  case Nil
  then show ?case by simp
next
  case (Cons i "is")
  show ?case
  proof (cases "rbool (w c)")
    case True
    then show ?thesis by simp
  next
    case False
    with Cons.prems have a: "answered w (Suc c) is" by simp
    then have "is \<noteq> []" by auto
    then have "0 < attempts w (Suc c) is" by (rule attempts_pos)
    with Cons.IH [OF a] False show ?thesis by simp
  qed
qed

lemma attempts_before_false:
  "j < attempts w c sched - 1 \<Longrightarrow> \<not> rbool (w (c + j))"
proof (induction sched arbitrary: c j)
  case Nil
  then show ?case by simp
next
  case (Cons i "is")
  show ?case
  proof (cases j)
    case 0
    with Cons.prems show ?thesis by (auto split: if_splits)
  next
    case (Suc j')
    with Cons.prems have "j' < attempts w (Suc c) is - 1"
      by (auto split: if_splits)
    from Cons.IH [OF this] Suc show ?thesis by simp
  qed
qed

lemma not_answered_all: "\<not> answered w c sched \<Longrightarrow> attempts w c sched = length sched"
  by (induction sched arbitrary: c) auto

text \<open>
  Claim C8 as stated fails: after a restart that is not rate-limited the node's bucket is
  gone from the registry also when the node never answers a ping and is not disabled.
\<close>

theorem bucket_eviction_counterexample:
  "\<not> (buckets s_spent ''n1'' \<noteq> None \<and>
      buckets (state_of (do_restart_node w_dead node1 False s_spent)) ''n1'' = None \<longrightarrow>
      Disable ''n1'' \<in> set (events_of (do_restart_node w_dead node1 False s_spent)) \<or>
      Log Warn (SuccessfullyRestarted ''n1'')
        \<in> set (events_of (do_restart_node w_dead node1 False s_spent)))"
proof -
  have na: "\<not> answered w_dead c sched" for c and sched :: "real list"
    by (induction sched arbitrary: c) (simp_all add: w_dead_def)
  show ?thesis
    by (simp add: do_restart_node_unlimited verify_restart_node_def Disable_in_events
        Log_in_events verify_restart_sched_proj na s_spent_def s_init_def node1_def)
qed

text \<open>
  Claim C8, amended.  After a call of \<open>do_restart_node\<close> the node has no bucket in the
  registry exactly when the call was not rate-limited, or it was rate-limited with the gate
  open and the token denied, which is exactly when the node is disabled.  A call that is
  not rate-limited leaves no bucket whatever the restart's outcome: when a ping is answered
  and the success is logged, and when none is and the failure is logged.  Every other call
  leaves the node with a bucket, created by the call if there was none, and no call touches
  the bucket of another node.
\<close>

theorem bucket_eviction:
  "(buckets (state_of (do_restart_node w n ratelimit s)) (name n) = None \<longleftrightarrow>
      \<not> ratelimit \<or>
      (can_restart s \<and> \<not> fst (can_consume (clock s) (bucket_of (name n) s)))) \<and>
   (Disable (name n) \<in> set (events_of (do_restart_node w n ratelimit s)) \<longleftrightarrow>
      ratelimit \<and> can_restart s \<and> \<not> fst (can_consume (clock s) (bucket_of (name n) s))) \<and>
   (k \<noteq> name n \<longrightarrow> buckets (state_of (do_restart_node w n ratelimit s)) k = buckets s k) \<and>
   buckets (state_of (do_restart_node w n False s)) (name n) = None \<and>
   logs_at Warn (events_of (do_restart_node w n False s)) =
     [NodeRestart (name n),
      if answered w (Suc (calls s)) ping_schedule then SuccessfullyRestarted (name n)
      else NoResponseAfterRestart (name n)]"
proof -
  have unl: "buckets (state_of (do_restart_node w n False s)) (name n) = None \<and>
      logs_at Warn (events_of (do_restart_node w n False s)) =
        [NodeRestart (name n),
         if answered w (Suc (calls s)) ping_schedule then SuccessfullyRestarted (name n)
         else NoResponseAfterRestart (name n)]"
    by (simp add: do_restart_node_unlimited verify_restart_node_def verify_restart_sched_proj)
  have main: "(buckets (state_of (do_restart_node w n ratelimit s)) (name n) = None \<longleftrightarrow>
      \<not> ratelimit \<or>
      (can_restart s \<and> \<not> fst (can_consume (clock s) (bucket_of (name n) s)))) \<and>
   (Disable (name n) \<in> set (events_of (do_restart_node w n ratelimit s)) \<longleftrightarrow>
      ratelimit \<and> can_restart s \<and> \<not> fst (can_consume (clock s) (bucket_of (name n) s))) \<and>
   (k \<noteq> name n \<longrightarrow> buckets (state_of (do_restart_node w n ratelimit s)) k = buckets s k)"
  proof (cases ratelimit)
    case False
    then show ?thesis
      by (simp add: do_restart_node_unlimited verify_restart_node_def Disable_in_events
          verify_restart_sched_proj)
  next
    case rl: True
    show ?thesis
    proof (cases "can_restart s")
      case False
      with rl show ?thesis by (simp add: do_restart_node_deferred)
    next
      case cr: True
      show ?thesis
      proof (cases "fst (can_consume (clock s) (bucket_of (name n) s))")
        case True
        with rl cr show ?thesis
          by (simp add: do_restart_node_token verify_restart_node_def Disable_in_events
              verify_restart_sched_proj)
      next
        case False
        with rl cr show ?thesis by (simp add: do_restart_node_denied)
      qed
    qed
  qed
  from main unl show ?thesis by blast
qed

theorem bucket_eviction_witness:
  "buckets (state_of (do_restart_node w_dead node1 False s_spent)) ''n1'' = None \<and>
   buckets (state_of (do_restart_node w_up node1 True s_spent)) ''n1'' = None \<and>
   buckets (state_of (do_restart_node w_up node1 True s_init)) ''n1'' \<noteq> None \<and>
   buckets (state_of (do_restart_node w_up node1 True s_cooling)) ''n1'' \<noteq> None \<and>
   buckets (state_of (do_restart_node w_up node1 True s_spent)) ''n2'' = buckets s_spent ''n2''"
  using bucket_eviction [of w_dead node1 False s_spent]
    bucket_eviction [of w_up node1 True s_spent "''n2''"]
    bucket_eviction [of w_up node1 True s_init]
    bucket_eviction [of w_up node1 True s_cooling]
    can_restart_s_spent no_token_s_spent can_restart_s_init token_s_init can_restart_s_cooling
  by (simp add: node1_def)

text \<open>
  Claim C9.  \<open>verify_restart_node\<close> sends the restart and then pings with the timeouts of
  the schedule, in order: 0.1, 0.5, 0.9 and then 1.0, at most 30 of them.  It stops at the
  first true reply: every ping before the last one sent got a false reply, and if some ping
  of the schedule gets a true reply the last ping sent got it.  It then logs the success; if
  no ping gets a true reply it sends all 30 and logs that the node does not respond.  It
  sends nothing else, disables nothing and leaves the registry as it was.
\<close>

theorem verify_restart_probes:
  "calls_in (events_of (verify_restart_node w n s)) =
     (name n, Restart) #
     map (\<lambda>i. (name n, RespondsToPing i))
       (take (attempts w (Suc (calls s)) ping_schedule) ping_schedule) \<and>
   ping_schedule = [1 / 10, 1 / 2, 9 / 10] @ replicate 27 1 \<and>
   attempts w (Suc (calls s)) ping_schedule \<le> 30 \<and>
   (\<forall>j. j < attempts w (Suc (calls s)) ping_schedule - 1 \<longrightarrow> \<not> rbool (w (Suc (calls s) + j))) \<and>
   (answered w (Suc (calls s)) ping_schedule \<longrightarrow>
      rbool (w (Suc (calls s) + (attempts w (Suc (calls s)) ping_schedule - 1)))) \<and>
   (\<not> answered w (Suc (calls s)) ping_schedule \<longrightarrow>
      attempts w (Suc (calls s)) ping_schedule = 30) \<and>
   logs_at Warn (events_of (verify_restart_node w n s)) =
     [NodeRestart (name n),
      if answered w (Suc (calls s)) ping_schedule then SuccessfullyRestarted (name n)
      else NoResponseAfterRestart (name n)] \<and>
   disables (events_of (verify_restart_node w n s)) = [] \<and>
   buckets (state_of (verify_restart_node w n s)) = buckets s \<and>
   result_of (verify_restart_node w n s) = Normal ()"
proof -
  have len: "length ping_schedule = 30"
    by (simp add: ping_schedule_eq)
  have le: "attempts w (Suc (calls s)) ping_schedule \<le> 30"
    using attempts_le [of w "Suc (calls s)" ping_schedule] len by simp
  have all: "\<not> answered w (Suc (calls s)) ping_schedule \<longrightarrow>
      attempts w (Suc (calls s)) ping_schedule = 30"
    using not_answered_all [of w "Suc (calls s)" ping_schedule] len by simp
  show ?thesis
    using le all ping_schedule_eq attempts_before_false [of _ w "Suc (calls s)" ping_schedule]
      attempts_first_true [of w "Suc (calls s)" ping_schedule]
    by (simp add: verify_restart_node_def verify_restart_sched_proj)
qed

lemma answered_w_up: "answered w_up 1 ping_schedule" "attempts w_up 1 ping_schedule = 1"
  by (simp_all add: ping_schedule_eq w_up_def)

lemma answered_w_third: "answered w_third 1 ping_schedule" "attempts w_third 1 ping_schedule = 3"
  by (simp_all add: ping_schedule_eq w_third_def)

lemma answered_w_dead: "\<not> answered w_dead c (sched :: real list)"
  by (induction sched arbitrary: c) (simp_all add: w_dead_def)

lemma length_ping_schedule: "length ping_schedule = 30"
  by (simp add: ping_schedule_eq)

lemma take_3_ping_schedule: "take 3 ping_schedule = [1 / 10, 1 / 2, 9 / 10]"
  by (simp add: ping_schedule_eq)

theorem verify_restart_probes_witness:
  "calls_in (events_of (verify_restart_node w_third node1 (s_init\<lparr>calls := 0\<rparr>))) =
     [(''n1'', Restart), (''n1'', RespondsToPing (1 / 10)), (''n1'', RespondsToPing (1 / 2)),
      (''n1'', RespondsToPing (9 / 10))] \<and>
   logs_at Warn (events_of (verify_restart_node w_third node1 (s_init\<lparr>calls := 0\<rparr>))) =
     [NodeRestart ''n1'', SuccessfullyRestarted ''n1''] \<and>
   length (calls_in (events_of (verify_restart_node w_dead node1 (s_init\<lparr>calls := 0\<rparr>)))) = 31 \<and>
   logs_at Warn (events_of (verify_restart_node w_dead node1 (s_init\<lparr>calls := 0\<rparr>))) =
     [NodeRestart ''n1'', NoResponseAfterRestart ''n1'']"
proof -
  let ?s = "s_init\<lparr>calls := 0\<rparr>"
  note third = verify_restart_probes [of w_third node1 ?s]
  note dead = verify_restart_probes [of w_dead node1 ?s]
  have nm: "name node1 = ''n1''"
    by (simp add: node1_def)
  have c0: "Suc (calls ?s) = 1"
    by simp
  have t1: "calls_in (events_of (verify_restart_node w_third node1 ?s)) =
      (name node1, Restart) #
      map (\<lambda>i. (name node1, RespondsToPing i))
        (take (attempts w_third (Suc (calls ?s)) ping_schedule) ping_schedule)"
    using third by blast
  have t2: "logs_at Warn (events_of (verify_restart_node w_third node1 ?s)) =
      [NodeRestart (name node1),
       if answered w_third (Suc (calls ?s)) ping_schedule then SuccessfullyRestarted (name node1)
       else NoResponseAfterRestart (name node1)]"
    using third by blast
  have d1: "calls_in (events_of (verify_restart_node w_dead node1 ?s)) =
      (name node1, Restart) #
      map (\<lambda>i. (name node1, RespondsToPing i))
        (take (attempts w_dead (Suc (calls ?s)) ping_schedule) ping_schedule)"
    using dead by blast
  have d2: "logs_at Warn (events_of (verify_restart_node w_dead node1 ?s)) =
      [NodeRestart (name node1),
       if answered w_dead (Suc (calls ?s)) ping_schedule then SuccessfullyRestarted (name node1)
       else NoResponseAfterRestart (name node1)]"
    using dead by blast
  have d3: "\<not> answered w_dead (Suc (calls ?s)) ping_schedule \<longrightarrow>
      attempts w_dead (Suc (calls ?s)) ping_schedule = 30"
    using dead by blast
  have na: "\<not> answered w_dead (Suc (calls ?s)) ping_schedule"
    by (rule answered_w_dead)
  with d3 have d4: "attempts w_dead (Suc (calls ?s)) ping_schedule = 30"
    by blast
  have "calls_in (events_of (verify_restart_node w_third node1 ?s)) =
     [(''n1'', Restart), (''n1'', RespondsToPing (1 / 10)), (''n1'', RespondsToPing (1 / 2)),
      (''n1'', RespondsToPing (9 / 10))]"
    unfolding t1 c0 answered_w_third nm take_3_ping_schedule by simp
  moreover have "logs_at Warn (events_of (verify_restart_node w_third node1 ?s)) =
     [NodeRestart ''n1'', SuccessfullyRestarted ''n1'']"
    unfolding t2 c0 nm using answered_w_third(1) by simp
  moreover have "length (calls_in (events_of (verify_restart_node w_dead node1 ?s))) = 31"
    unfolding d1 d4 by (simp add: length_ping_schedule)
  moreover have "logs_at Warn (events_of (verify_restart_node w_dead node1 ?s)) =
     [NodeRestart ''n1'', NoResponseAfterRestart ''n1'']"
    unfolding d2 nm using na by simp
  ultimately show ?thesis by blast
qed

lemma ib_proj:
  "result_of (ib w n c s) = Normal (w (calls s))"
  "calls_in (events_of (ib w n c s)) = [(name n, c)]"
  "calls (state_of (ib w n c s)) = Suc (calls s)"
  "buckets (state_of (ib w n c s)) = buckets s"
  by (simp_all add: ib_def insured_proj)

lemma verify_queue_proj:
  "result_of (verify_queue w n q s) = Normal ()"
  "calls_in (events_of (verify_queue w n q s)) =
     (if q \<in> set (queues n) then [(name n, AddQueue q)]
      else if q = direct_queue n then []
      else [(name n, CancelQueue q)])"
  by (simp_all add: verify_queue_def proj_simps ib_proj)

lemma for_each_verify_queue:
  "result_of (for_each qs (verify_queue w n) s) = Normal ()"
  "calls_in (events_of (for_each qs (verify_queue w n) s)) =
     concat (map (\<lambda>q. if q \<in> set (queues n) then [(name n, AddQueue q)]
                      else if q = direct_queue n then []
                      else [(name n, CancelQueue q)]) qs)"
  by (induction qs arbitrary: s; simp add: proj_simps verify_queue_proj)+

lemma verify_node_queues_calls:
  "calls_in (events_of (verify_node_queues w n s)) =
     (name n, ConsumingFrom) #
     (case rqueues (w (calls s)) of
        None \<Rightarrow> []
      | Some obs \<Rightarrow>
          concat (map (\<lambda>q. if q \<in> set (queues n) then [(name n, AddQueue q)]
                           else if q = direct_queue n then []
                           else [(name n, CancelQueue q)])
                   (symmetric_difference obs (queues n))))"
  "result_of (verify_node_queues w n s) = Normal ()"
  by (simp_all add: verify_node_queues_def proj_simps ib_proj for_each_verify_queue
      split: option.splits)

lemma set_symmetric_difference:
  "set (symmetric_difference obs qs) = (set obs - set qs) \<union> (set qs - set obs)"
  by (auto simp add: symmetric_difference_def)

lemma distinct_symmetric_difference: "distinct (symmetric_difference obs qs)"
  by (auto simp add: symmetric_difference_def)

lemma count_add:
  "count_list
     (concat (map (\<lambda>q. if q \<in> set decl then [(k, AddQueue q)]
                      else if q = d then [] else [(k, CancelQueue q)]) qs))
     (k, AddQueue q) =
   (if q \<in> set decl then count_list qs q else 0)"
  by (induction qs) auto

lemma count_cancel:
  "count_list
     (concat (map (\<lambda>q. if q \<in> set decl then [(k, AddQueue q)]
                      else if q = d then [] else [(k, CancelQueue q)]) qs))
     (k, CancelQueue q) =
   (if q \<notin> set decl \<and> q \<noteq> d then count_list qs q else 0)"
  by (induction qs) auto

lemma count_list_distinct: "distinct xs \<Longrightarrow> count_list xs x = (if x \<in> set xs then 1 else 0)"
  by (induction xs) auto

text \<open>
  Claim C2.  Whatever the declared queues of the node and whatever the reply to
  \<^verbatim>\<open>consuming_from\<close>, \<open>verify_node_queues\<close> never sends \<^verbatim>\<open>cancel_queue\<close> for the node's
  direct queue, to this node or to any other.
\<close>

theorem direct_queue_never_cancelled:
  "Call k (CancelQueue (direct_queue n)) \<notin> set (events_of (verify_node_queues w n s))"
  by (auto simp add: Call_in_events verify_node_queues_calls split: option.splits if_splits)

text \<open>
  Claim C4.  With a reply \<open>obs\<close> to \<^verbatim>\<open>consuming_from\<close>, \<open>verify_node_queues\<close> sends
  \<^verbatim>\<open>add_queue(q)\<close> exactly once for a queue that is declared and not observed (the direct
  queue included) and for no other queue; it sends \<^verbatim>\<open>cancel_queue(q)\<close> exactly once for a
  queue that is observed, not declared and not the direct queue, and for no other queue.  A
  queue in both sets or in neither gets no command.  With no reply (\<open>None\<close>) the query itself
  is the only command sent.  All commands go to the node verified, and they are the query,
  \<^verbatim>\<open>add_queue\<close> and \<^verbatim>\<open>cancel_queue\<close> only.
\<close>

theorem verify_node_queues_commands:
  "(rqueues (w (calls s)) = None \<longrightarrow>
      calls_in (events_of (verify_node_queues w n s)) = [(name n, ConsumingFrom)]) \<and>
   (rqueues (w (calls s)) = Some obs \<longrightarrow>
      count_list (events_of (verify_node_queues w n s)) (Call (name n) (AddQueue q)) =
        (if q \<in> set (queues n) \<and> q \<notin> set obs then 1 else 0) \<and>
      count_list (events_of (verify_node_queues w n s)) (Call (name n) (CancelQueue q)) =
        (if q \<in> set obs \<and> q \<notin> set (queues n) \<and> q \<noteq> direct_queue n then 1 else 0)) \<and>
   (\<forall>k c. Call k c \<in> set (events_of (verify_node_queues w n s)) \<longrightarrow>
      k = name n \<and> (c = ConsumingFrom \<or> (\<exists>q'. c = AddQueue q') \<or> (\<exists>q'. c = CancelQueue q'))) \<and>
   result_of (verify_node_queues w n s) = Normal ()"
proof -
  have none: "rqueues (w (calls s)) = None \<longrightarrow>
      calls_in (events_of (verify_node_queues w n s)) = [(name n, ConsumingFrom)]"
    by (simp add: verify_node_queues_calls)
  have some: "rqueues (w (calls s)) = Some obs \<longrightarrow>
      count_list (events_of (verify_node_queues w n s)) (Call (name n) (AddQueue q)) =
        (if q \<in> set (queues n) \<and> q \<notin> set obs then 1 else 0) \<and>
      count_list (events_of (verify_node_queues w n s)) (Call (name n) (CancelQueue q)) =
        (if q \<in> set obs \<and> q \<notin> set (queues n) \<and> q \<noteq> direct_queue n then 1 else 0)"
    by (simp add: count_Call verify_node_queues_calls count_add count_cancel
        count_list_distinct distinct_symmetric_difference set_symmetric_difference)
  have only: "\<forall>k c. Call k c \<in> set (events_of (verify_node_queues w n s)) \<longrightarrow>
      k = name n \<and> (c = ConsumingFrom \<or> (\<exists>q'. c = AddQueue q') \<or> (\<exists>q'. c = CancelQueue q'))"
    by (auto simp add: Call_in_events verify_node_queues_calls split: option.splits if_splits)
  from none some only show ?thesis
    by (simp add: verify_node_queues_calls)
qed

theorem verify_node_queues_commands_witness:
  "count_list (events_of (verify_node_queues (w_consuming [''q1'']) node1 s_init))
     (Call ''n1'' (AddQueue ''q2'')) = 1 \<and>
   count_list (events_of (verify_node_queues (w_consuming [''q1'']) node1 s_init))
     (Call ''n1'' (CancelQueue ''q1'')) = 0 \<and>
   count_list (events_of (verify_node_queues (w_consuming [''q1'', ''q2'', ''d'']) node2 s_init))
     (Call ''n2'' (CancelQueue ''q2'')) = 1 \<and>
   count_list (events_of (verify_node_queues (w_consuming [''q1'', ''q2'', ''d'']) node2 s_init))
     (Call ''n2'' (CancelQueue ''d'')) = 0 \<and>
   calls_in (events_of (verify_node_queues w_up node1 s_init)) = [(''n1'', ConsumingFrom)]"
  using verify_node_queues_commands [of "w_consuming [''q1'']" s_init node1 "[''q1'']" "''q2''"]
    verify_node_queues_commands [of "w_consuming [''q1'']" s_init node1 "[''q1'']" "''q1''"]
    verify_node_queues_commands [of "w_consuming [''q1'', ''q2'', ''d'']" s_init node2
      "[''q1'', ''q2'', ''d'']" "''q2''"]
    verify_node_queues_commands [of "w_consuming [''q1'', ''q2'', ''d'']" s_init node2
      "[''q1'', ''q2'', ''d'']" "''d''"]
    verify_node_queues_commands [of w_up s_init node1]
  by (simp add: w_consuming_def w_up_def node1_def node2_def)

lemma try_or_return_proj:
  "result_of (try_or_return m f s) =
     (case result_of (m s) of
        Raise e \<Rightarrow> if is_TypeError_or_KeyError e then Normal () else Raise e
      | Normal a \<Rightarrow> result_of (f a (state_of (m s))))"
  "events_of (try_or_return m f s) =
     events_of (m s) @
     (case result_of (m s) of Raise e \<Rightarrow> [] | Normal a \<Rightarrow> events_of (f a (state_of (m s))))"
  "state_of (try_or_return m f s) =
     (case result_of (m s) of
        Raise e \<Rightarrow> state_of (m s)
      | Normal a \<Rightarrow> state_of (f a (state_of (m s))))"
  by (simp_all add: try_or_return_def result_of_def state_of_def events_of_def
      split: prod.splits result.splits)

lemma getitem_proj:
  "events_of (getitem v k s) = []"
  "state_of (getitem v k s) = s"
  "result_of (getitem v k s) =
     (case v of
        PyDict d \<Rightarrow> (case map_of d k of None \<Rightarrow> Raise (KeyError k) | Some x \<Rightarrow> Normal x)
      | _ \<Rightarrow> Raise TypeError)"
  by (cases v; simp split: option.splits)+

lemma verify_node_processes_skip:
  assumes "\<And>d. rstats (w (calls s)) = PyDict d \<Longrightarrow> map_of d ''autoscaler'' = None"
  shows "calls_in (events_of (verify_node_processes w n s)) = [(name n, Stats)]"
    and "result_of (verify_node_processes w n s) = Normal ()"
  using assms
  by (cases "rstats (w (calls s))";
      simp add: verify_node_processes_def try_or_return_proj proj_simps insured_proj getitem_proj)+

lemma verify_node_processes_compare:
  assumes "rstats (w (calls s)) = PyDict d"
    and "map_of d ''autoscaler'' = Some (PyDict c)"
    and "map_of c ''max'' = Some vmax"
    and "map_of c ''min'' = Some vmin"
  shows "calls_in (events_of (verify_node_processes w n s)) =
           (name n, Stats) #
           (if PyInt (max_concurrency n) \<noteq> vmax \<or> PyInt (min_concurrency n) \<noteq> vmin
            then [(name n, Autoscale (max_concurrency n) (min_concurrency n))] else [])"
    and "result_of (verify_node_processes w n s) = Normal ()"
  using assms
  by (simp_all add: verify_node_processes_def try_or_return_proj proj_simps insured_proj
      getitem_proj ib_proj)

text \<open>
  Claim C6.  When the stats reply is no map or has no \<^verbatim>\<open>autoscaler\<close> entry,
  \<open>verify_node_processes\<close> returns after the stats query and sends nothing else.  When the
  entry is there, with the observed bounds \<open>cmax\<close> and \<open>cmin\<close>, it sends
  \<^verbatim>\<open>autoscale(max_concurrency, min_concurrency)\<close>, in this order, exactly when \<open>cmax\<close>
  differs from \<open>max_concurrency\<close> or \<open>cmin\<close> differs from \<open>min_concurrency\<close>, and nothing
  otherwise.
\<close>

theorem verify_node_processes_commands:
  "((\<forall>d. rstats (w (calls s)) = PyDict d \<longrightarrow> map_of d ''autoscaler'' = None) \<longrightarrow>
      calls_in (events_of (verify_node_processes w n s)) = [(name n, Stats)] \<and>
      result_of (verify_node_processes w n s) = Normal ()) \<and>
   (rstats (w (calls s)) = PyDict d \<and> map_of d ''autoscaler'' = Some (PyDict c) \<and>
    map_of c ''max'' = Some (PyInt cmax) \<and> map_of c ''min'' = Some (PyInt cmin) \<longrightarrow>
      calls_in (events_of (verify_node_processes w n s)) =
        (name n, Stats) #
        (if cmax \<noteq> max_concurrency n \<or> cmin \<noteq> min_concurrency n
         then [(name n, Autoscale (max_concurrency n) (min_concurrency n))] else []) \<and>
      result_of (verify_node_processes w n s) = Normal ())"
proof (intro conjI impI)
  assume "\<forall>d. rstats (w (calls s)) = PyDict d \<longrightarrow> map_of d ''autoscaler'' = None"
  then have h: "\<And>d. rstats (w (calls s)) = PyDict d \<Longrightarrow> map_of d ''autoscaler'' = None"
    by blast
  show "calls_in (events_of (verify_node_processes w n s)) = [(name n, Stats)]"
    using h by (rule verify_node_processes_skip)
  show "result_of (verify_node_processes w n s) = Normal ()"
    using h by (rule verify_node_processes_skip)
next
  assume a: "rstats (w (calls s)) = PyDict d \<and> map_of d ''autoscaler'' = Some (PyDict c) \<and>
    map_of c ''max'' = Some (PyInt cmax) \<and> map_of c ''min'' = Some (PyInt cmin)"
  then show "calls_in (events_of (verify_node_processes w n s)) =
        (name n, Stats) #
        (if cmax \<noteq> max_concurrency n \<or> cmin \<noteq> min_concurrency n
         then [(name n, Autoscale (max_concurrency n) (min_concurrency n))] else [])"
    using verify_node_processes_compare(1) [of w s d c "PyInt cmax" "PyInt cmin" n]
    by auto
  from a show "result_of (verify_node_processes w n s) = Normal ()"
    using verify_node_processes_compare(2) [of w s d c "PyInt cmax" "PyInt cmin" n]
    by auto
qed

theorem verify_node_processes_commands_witness:
  "calls_in (events_of (verify_node_processes
      (w_stats (PyDict [(''autoscaler'', PyDict [(''max'', PyInt 8), (''min'', PyInt 2)])]))
      node1 s_init)) = [(''n1'', Stats), (''n1'', Autoscale 10 2)] \<and>
   calls_in (events_of (verify_node_processes
      (w_stats (PyDict [(''autoscaler'', PyDict [(''max'', PyInt 10), (''min'', PyInt 2)])]))
      node1 s_init)) = [(''n1'', Stats)] \<and>
   calls_in (events_of (verify_node_processes (w_stats (PyDict [(''total'', PyInt 3)]))
      node1 s_init)) = [(''n1'', Stats)] \<and>
   calls_in (events_of (verify_node_processes (w_stats PyNone) node1 s_init)) =
     [(''n1'', Stats)]"
  using verify_node_processes_commands
      [where w = "w_stats (PyDict [(''autoscaler'', PyDict [(''max'', PyInt 8), (''min'', PyInt 2)])])"
        and s = s_init and n = node1
        and d = "[(''autoscaler'', PyDict [(''max'', PyInt 8), (''min'', PyInt 2)])]"
        and c = "[(''max'', PyInt 8), (''min'', PyInt 2)]" and cmax = 8 and cmin = 2]
    verify_node_processes_commands
      [where w = "w_stats (PyDict [(''autoscaler'', PyDict [(''max'', PyInt 10), (''min'', PyInt 2)])])"
        and s = s_init and n = node1
        and d = "[(''autoscaler'', PyDict [(''max'', PyInt 10), (''min'', PyInt 2)])]"
        and c = "[(''max'', PyInt 10), (''min'', PyInt 2)]" and cmax = 10 and cmin = 2]
    verify_node_processes_commands
      [where w = "w_stats (PyDict [(''total'', PyInt 3)])" and s = s_init and n = node1]
    verify_node_processes_commands [where w = "w_stats PyNone" and s = s_init and n = node1]
  by (simp add: w_stats_def node1_def)

lemma try_action_proj:
  "result_of (try_action m s) =
     (case result_of (m s) of
        Raise e \<Rightarrow> if is_Exception e then Normal () else Raise e
      | Normal a \<Rightarrow> Normal a)"
  "state_of (try_action m s) = state_of (m s)"
  "events_of (try_action m s) =
     events_of (m s) @
     (case result_of (m s) of
        Raise e \<Rightarrow> if is_Exception e then [Log Error (EventCausedException e)] else []
      | Normal a \<Rightarrow> [])"
  by (simp_all add: try_action_def result_of_def state_of_def events_of_def
      split: prod.splits result.splits)

lemma try_finally_emit_proj:
  "result_of (try_finally body (emit e) s) = result_of (body s)"
  "state_of (try_finally body (emit e) s) = state_of (body s)"
  "events_of (try_finally body (emit e) s) = events_of (body s) @ [e]"
  by (simp_all add: try_finally_def emit_def result_of_def state_of_def events_of_def
      split: prod.splits result.splits)

lemma for_each_actions:
  assumes "\<forall>n\<in>set ns. \<forall>s' e. result_of (act n kw s') = Raise e \<longrightarrow> is_Exception e"
  shows "result_of (for_each ns (\<lambda>n. try_action (act n kw)) s) = Normal () \<and>
         events_of (for_each ns (\<lambda>n. try_action (act n kw)) s) = every_node_events act kw ns s"
  using assms
proof (induction ns arbitrary: s)
  case Nil
  then show ?case by simp
next
  case (Cons n ns)
  from Cons.prems have ih: "\<forall>n\<in>set ns. \<forall>s' e. result_of (act n kw s') = Raise e \<longrightarrow> is_Exception e"
    by simp
  from Cons.prems have hd: "\<And>e. result_of (act n kw s) = Raise e \<Longrightarrow> is_Exception e"
    by simp
  have r: "result_of (try_action (act n kw) s) = Normal ()"
    using hd by (simp add: try_action_proj split: result.splits)
  show ?case
    using Cons.IH [OF ih, of "state_of (act n kw s)"] hd r
    by (simp add: proj_simps try_action_proj split: result.splits)
qed

lemma for_each_no_send:
  assumes "\<forall>n\<in>set ns. \<forall>s'. Send ev v \<notin> set (events_of (act n kw s'))"
  shows "Send ev v \<notin> set (events_of (for_each ns (\<lambda>n. try_action (act n kw)) s))"
  using assms
  by (induction ns arbitrary: s)
     (auto simp add: proj_simps try_action_proj split: result.splits if_splits)

lemma process_request_events:
  "events_of (process_request r s) =
     [RespondToPing, RInfo WakeUp] @
     events_of (for_each (nodes r) (\<lambda>n. try_action (action r n (kwargs r))) s) @
     [Send (event r) True]"
  "result_of (process_request r s) =
     result_of (for_each (nodes r) (\<lambda>n. try_action (action r n (kwargs r))) s)"
  by (simp_all add: process_request_def proj_simps respond_to_ping_def try_finally_emit_proj)

text \<open>
  Claim C5 as stated fails: \<^verbatim>\<open>except Exception\<close> does not catch an exception outside
  class \<^verbatim>\<open>Exception\<close>.  When the action raises \<^verbatim>\<open>GreenletExit\<close> on the first of two nodes,
  nothing is logged and the action never runs on the second node; the completion is still
  signalled, and the exception leaves the loop.
\<close>

theorem process_request_abort_counterexample:
  "events_of (process_request r_exit s_init) = [RespondToPing, RInfo WakeUp, Send 7 True] \<and>
   result_of (process_request r_exit s_init) = Raise (BaseExceptionOf ''GreenletExit'') \<and>
   every_node_events (action r_exit) (kwargs r_exit) (nodes r_exit) s_init =
     [Log Error (EventCausedException (BaseExceptionOf ''GreenletExit'')), Call ''n2'' Alive] \<and>
   \<not> (events_of (process_request r_exit s_init) =
        [RespondToPing, RInfo WakeUp] @
        every_node_events (action r_exit) (kwargs r_exit) (nodes r_exit) s_init @
        [Send (event r_exit) True] \<and>
      result_of (process_request r_exit s_init) = Normal ())"
  by (simp add: process_request_events r_exit_def exit_action_def node1_def node2_def
      proj_simps try_action_proj)

text \<open>
  Claim C5, amended.  Processing a dequeued request ends with \<^verbatim>\<open>event.send(True)\<close> on the
  request's completion event, whatever the actions did; when the actions do not send on
  that event themselves the completion is signalled exactly once.  When the actions raise
  nothing but exceptions of class \<^verbatim>\<open>Exception\<close>, the action is run on every node in the
  order given, every exception raised is logged, the loop goes on to the next node, the
  request ends normally, and the loop of \<open>run\<close> goes on with what it dequeues next.
\<close>

theorem process_request_completion:
  "last (events_of (process_request r s)) = Send (event r) True \<and>
   ((\<forall>n\<in>set (nodes r). \<forall>s'. Send (event r) True \<notin> set (events_of (action r n (kwargs r) s'))) \<longrightarrow>
      count_list (events_of (process_request r s)) (Send (event r) True) = 1) \<and>
   ((\<forall>n\<in>set (nodes r). \<forall>s' e. result_of (action r n (kwargs r) s') = Raise e \<longrightarrow> is_Exception e) \<longrightarrow>
      events_of (process_request r s) =
        [RespondToPing, RInfo WakeUp] @
        every_node_events (action r) (kwargs r) (nodes r) s @
        [Send (event r) True] \<and>
      result_of (process_request r s) = Normal () \<and>
      events_of (run_loop (Request r # ds) s) =
        events_of (process_request r s) @
        events_of (run_loop ds (state_of (process_request r s))) \<and>
      result_of (run_loop (Request r # ds) s) =
        result_of (run_loop ds (state_of (process_request r s))))"
proof (intro conjI impI)
  show "last (events_of (process_request r s)) = Send (event r) True"
    by (simp add: process_request_events)
next
  assume "\<forall>n\<in>set (nodes r). \<forall>s'. Send (event r) True \<notin> set (events_of (action r n (kwargs r) s'))"
  then have "Send (event r) True \<notin>
      set (events_of (for_each (nodes r) (\<lambda>n. try_action (action r n (kwargs r))) s))"
    by (rule for_each_no_send [where act = "action r" and kw = "kwargs r"])
  then show "count_list (events_of (process_request r s)) (Send (event r) True) = 1"
    by (simp add: process_request_events count_list_0_iff)
next
  assume h: "\<forall>n\<in>set (nodes r). \<forall>s' e. result_of (action r n (kwargs r) s') = Raise e \<longrightarrow> is_Exception e"
  have fe: "result_of (for_each (nodes r) (\<lambda>n. try_action (action r n (kwargs r))) s) = Normal () \<and>
      events_of (for_each (nodes r) (\<lambda>n. try_action (action r n (kwargs r))) s) =
        every_node_events (action r) (kwargs r) (nodes r) s"
    using h by (rule for_each_actions [where act = "action r" and kw = "kwargs r"])
  from fe show "events_of (process_request r s) =
        [RespondToPing, RInfo WakeUp] @
        every_node_events (action r) (kwargs r) (nodes r) s @
        [Send (event r) True]"
    by (simp add: process_request_events)
  from fe show n: "result_of (process_request r s) = Normal ()"
    by (simp add: process_request_events)
  from n show "events_of (run_loop (Request r # ds) s) =
        events_of (process_request r s) @
        events_of (run_loop ds (state_of (process_request r s)))"
    by (simp add: events_of_seq)
  from n show "result_of (run_loop (Request r # ds) s) =
        result_of (run_loop ds (state_of (process_request r s)))"
    by (simp add: result_of_seq)
qed

lemma tame_ret [tame_intros]: "tame (ret a)"
  by (simp add: tame_def)

lemma tame_raise [tame_intros]: "is_Exception e \<Longrightarrow> tame (raise e)"
  by (simp add: tame_def)

lemma tame_emit_Call [tame_intros]: "tame (emit (Call k c))"
  and tame_emit_Log [tame_intros]: "tame (emit (Log l m))"
  and tame_emit_Disable [tame_intros]: "tame (emit (Disable k))"
  and tame_emit_RespondToPing [tame_intros]: "tame (emit RespondToPing)"
  by (simp_all add: tame_def)

lemma tame_bind [tame_intros]: "tame m \<Longrightarrow> (\<And>a. tame (f a)) \<Longrightarrow> tame (bind m f)"
  by (auto simp add: tame_def proj_simps split: result.splits)

lemma tame_seq [tame_intros]: "tame m \<Longrightarrow> tame k \<Longrightarrow> tame (seq m k)"
  by (simp add: seq_def tame_bind)

lemma tame_if [tame_intros]: "tame a \<Longrightarrow> tame b \<Longrightarrow> tame (if c then a else b)"
  by simp

lemma tame_state_if [tame_intros]:
  "tame a \<Longrightarrow> tame b \<Longrightarrow> tame (\<lambda>s. if c s then a s else b s)"
  by (simp add: tame_def)

lemma tame_case_option [tame_intros]:
  "tame a \<Longrightarrow> (\<And>x. tame (b x)) \<Longrightarrow> tame (case v of None \<Rightarrow> a | Some x \<Rightarrow> b x)"
  by (cases v) simp_all

lemma tame_silent:
  "(\<And>s. events_of (m s) = []) \<Longrightarrow> (\<And>s e. result_of (m s) = Raise e \<Longrightarrow> is_Exception e) \<Longrightarrow>
   tame m"
  by (simp add: tame_def)

lemma tame_repeat [tame_intros]: "tame m \<Longrightarrow> tame (repeat k m)"
  by (induction k) (simp_all add: tame_intros)

lemma tame_for_each [tame_intros]: "(\<And>x. tame (body x)) \<Longrightarrow> tame (for_each xs body)"
  by (induction xs) (simp_all add: tame_intros)

lemma tame_try_or_return [tame_intros]:
  "tame m \<Longrightarrow> (\<And>a. tame (f a)) \<Longrightarrow> tame (try_or_return m f)"
  by (auto simp add: tame_def try_or_return_proj split: result.splits if_splits)

lemma tame_respond_to_ping [tame_intros]: "tame respond_to_ping"
  by (simp add: respond_to_ping_def tame_intros)

lemma tame_pause [tame_intros]: "tame pause"
  by (auto simp add: tame_def pause_def proj_simps respond_to_ping_def split: result.splits)

lemma tame_resume [tame_intros]: "tame resume"
  by (auto simp add: tame_def resume_def)

lemma tame_errback [tame_intros]: "tame errback"
  by (simp add: errback_def tame_intros)

lemma tame_on_broker_revive [tame_intros]: "tame on_broker_revive"
  unfolding on_broker_revive_def
  by (rule tame_seq) (simp add: tame_def, rule tame_resume)

lemma tame_next_reply [tame_intros]: "tame (next_reply w)"
  by (simp add: tame_def)

lemma tame_blocking [tame_intros]: "tame (blocking w n c)"
  by (simp add: blocking_def tame_intros)

lemma tame_insured [tame_intros]: "tame (insured w n c)"
  by (simp add: insured_def tame_intros)

lemma tame_ib [tame_intros]: "tame (ib w n c)"
  by (simp add: ib_def tame_intros)

lemma tame_ping_loop [tame_intros]: "tame (ping_loop w n sched)"
  by (induction sched) (simp_all add: tame_intros)

lemma tame_verify_restart_node [tame_intros]: "tame (verify_restart_node w n)"
  by (simp add: verify_restart_node_def verify_restart_sched_def tame_intros)

lemma tame_get_bucket [tame_intros]: "tame (get_bucket k)"
  by (rule tame_silent) (simp_all add: get_bucket_def split: option.splits)

lemma tame_consume [tame_intros]: "tame (consume k b)"
  by (rule tame_silent) (simp_all add: consume_def)

lemma tame_pop_bucket [tame_intros]: "tame (pop_bucket k)"
  by (rule tame_silent) (auto simp add: pop_bucket_def split: option.splits)

lemma tame_pop_bucket_default [tame_intros]: "tame (pop_bucket_default k)"
  by (rule tame_silent) (simp_all add: pop_bucket_default_def)

lemma tame_do_restart_node [tame_intros]: "tame (do_restart_node w n ratelimit)"
  unfolding do_restart_node_def
  by (intro tame_intros)

lemma tame_do_stop_node [tame_intros]: "tame (do_stop_node w n)"
  by (simp add: do_stop_node_def tame_intros)

lemma tame_getitem [tame_intros]: "tame (getitem v k)"
  by (rule tame_silent) (auto simp add: getitem_proj split: pyval.splits option.splits)

lemma tame_verify_node_processes [tame_intros]: "tame (verify_node_processes w n)"
  unfolding verify_node_processes_def
  by (intro tame_intros)

lemma tame_verify_queue [tame_intros]: "tame (verify_queue w n q)"
  by (simp add: verify_queue_def tame_intros)

lemma tame_verify_node_queues [tame_intros]: "tame (verify_node_queues w n)"
  unfolding verify_node_queues_def
  by (intro tame_intros)

lemma tame_do_verify_node [tame_intros]: "tame (do_verify_node w n ratelimit)"
proof -
  have eq: "do_verify_node w n ratelimit =
      (\<lambda>s. if \<not> paused s then
             (if enabled_and_saved n then
                bind (ib w n Alive) (\<lambda>r.
                  seq (if \<not> rbool r then do_restart_node w n ratelimit else ret ())
                    (seq (verify_node_processes w n) (verify_node_queues w n)))
              else
                bind (ib w n Alive) (\<lambda>r. if rbool r then do_stop_node w n else ret ())) s
           else ret () s)"
    by (rule ext) (simp add: do_verify_node_def)
  show ?thesis
    by (subst eq) (intro tame_intros)
qed

lemma tame_with_ratelimit [tame_intros]: "(\<And>b. tame (f b)) \<Longrightarrow> tame (with_ratelimit f kw)"
  by (simp add: with_ratelimit_def tame_intros split: option.splits)

lemma tame_without_kwargs [tame_intros]: "tame f \<Longrightarrow> tame (without_kwargs f kw)"
  by (simp add: without_kwargs_def tame_intros)

lemma last_verify:
  "last (verify w queue ns ratelimit ev) =
     \<lparr>nodes = ns, event = ev, action = (\<lambda>n. with_ratelimit (do_verify_node w n)),
      kwargs = [(''ratelimit'', ratelimit)]\<rparr>"
  by (simp add: verify_def new_request_def)

lemma last_restart:
  "last (restart w queue ns ev) =
     \<lparr>nodes = ns, event = ev, action = (\<lambda>n. with_ratelimit (do_restart_node w n)), kwargs = []\<rparr>"
  by (simp add: restart_def new_request_def)

lemma last_shutdown:
  "last (shutdown w queue ns ev) =
     \<lparr>nodes = ns, event = ev, action = (\<lambda>n. without_kwargs (do_stop_node w n)), kwargs = []\<rparr>"
  by (simp add: shutdown_def new_request_def)

lemma api_requests_tame:
  "tame (action (last (verify w queue ns ratelimit ev)) n kw)"
  "tame (action (last (restart w queue ns ev)) n kw)"
  "tame (action (last (shutdown w queue ns ev)) n kw)"
  by (simp_all add: last_verify last_restart last_shutdown tame_intros)

lemma with_ratelimit_given: "with_ratelimit f [(''ratelimit'', b)] = f b"
  by (simp add: with_ratelimit_def)


lemma insured_clean:
  "conn_errors (w (calls s)) = 0 \<Longrightarrow> \<not> revived (w (calls s)) \<Longrightarrow>
   insured w n c s =
     (Normal (w (calls s)),
      s\<lparr>clock := clock s + took (w (calls s)), calls := Suc (calls s)\<rparr>,
      [Call (name n) c])"
  by (simp add: insured_def bind_def seq_def next_reply_def ret_def emit_def)

lemma w_no_bounds_reply:
  "conn_errors (w_no_bounds i) = 0" "\<not> revived (w_no_bounds i)" "rbool (w_no_bounds i)"
  "rstats (w_no_bounds i) = PyDict [(''autoscaler'', PyDict [])]"
  by (simp_all add: w_no_bounds_def w_stats_def)

lemma processes_no_bounds:
  "events_of (verify_node_processes w_no_bounds n s) = [Call (name n) Stats]"
  "result_of (verify_node_processes w_no_bounds n s) = Raise (KeyError ''max'')"
  "paused (state_of (verify_node_processes w_no_bounds n s)) = paused s"
  by (simp_all add: verify_node_processes_def try_or_return_proj proj_simps insured_clean
      w_no_bounds_reply getitem_proj)

lemma verify_no_bounds:
  "\<not> paused s \<Longrightarrow> enabled_and_saved n \<Longrightarrow>
   events_of (do_verify_node w_no_bounds n b s) = [Call (name n) Alive, Call (name n) Stats] \<and>
   result_of (do_verify_node w_no_bounds n b s) = Raise (KeyError ''max'')"
  by (simp add: do_verify_node_def proj_simps ib_def insured_clean w_no_bounds_reply
      processes_no_bounds)

lemma do_verify_node_paused_after:
  "\<not> paused s \<Longrightarrow> enabled_and_saved n \<Longrightarrow>
   \<not> paused (state_of (do_verify_node w_no_bounds n b s))"
  by (simp add: do_verify_node_def proj_simps ib_def insured_clean w_no_bounds_reply
      processes_no_bounds)

theorem process_request_completion_witness:
  "events_of (process_request (last (verify w_no_bounds [] [node1, node2] False 7)) s_init) =
     [RespondToPing, RInfo WakeUp,
      Call ''n1'' Alive, Call ''n1'' Stats, Log Error (EventCausedException (KeyError ''max'')),
      Call ''n2'' Alive, Call ''n2'' Stats, Log Error (EventCausedException (KeyError ''max'')),
      Send 7 True] \<and>
   count_list
     (events_of (process_request (last (verify w_no_bounds [] [node1, node2] False 7)) s_init))
     (Send 7 True) = 1 \<and>
   result_of (process_request (last (verify w_no_bounds [] [node1, node2] False 7)) s_init) =
     Normal () \<and>
   events_of (run_loop [Request (last (verify w_no_bounds [] [node1, node2] False 7)), Empty]
     s_init) =
     [RespondToPing, RInfo WakeUp,
      Call ''n1'' Alive, Call ''n1'' Stats, Log Error (EventCausedException (KeyError ''max'')),
      Call ''n2'' Alive, Call ''n2'' Stats, Log Error (EventCausedException (KeyError ''max'')),
      Send 7 True, RespondToPing]"
proof -
  let ?r = "last (verify w_no_bounds [] [node1, node2] False 7)"
  have t: "tame (action ?r n (kwargs ?r))" for n
    by (rule api_requests_tame)
  have h1: "\<forall>n\<in>set (nodes ?r). \<forall>s'. Send (event ?r) True \<notin> set (events_of (action ?r n (kwargs ?r) s'))"
    using t by (simp add: tame_def)
  have h2: "\<forall>n\<in>set (nodes ?r). \<forall>s' e. result_of (action ?r n (kwargs ?r) s') = Raise e \<longrightarrow> is_Exception e"
    using t by (simp add: tame_def)
  have e1: "enabled_and_saved node1" "enabled_and_saved node2"
    by (simp_all add: enabled_and_saved_def node1_def node2_def)
  have p: "\<not> paused s_init"
    by (simp add: s_init_def)
  note v1 = verify_no_bounds [OF p e1(1), of False]
  have p': "\<not> paused (state_of (do_verify_node w_no_bounds node1 False s_init))"
    using p e1(1) by (rule do_verify_node_paused_after)
  note v2 = verify_no_bounds [OF p' e1(2), of False]
  have ev: "every_node_events (action ?r) (kwargs ?r) (nodes ?r) s_init =
      [Call ''n1'' Alive, Call ''n1'' Stats, Log Error (EventCausedException (KeyError ''max'')),
       Call ''n2'' Alive, Call ''n2'' Stats, Log Error (EventCausedException (KeyError ''max''))]"
    using v1 v2 by (simp add: last_verify with_ratelimit_given node1_def node2_def)
  from process_request_completion [of ?r s_init "[Empty]"] h1 h2 ev show ?thesis
    by (simp add: last_verify events_of_seq respond_to_ping_def)
qed

lemma paused_do_verify_node: "paused s \<Longrightarrow> do_verify_node w n ratelimit s = (Normal (), s, [])"
  by (simp add: do_verify_node_def ret_def)

lemma paused_for_each_verify:
  "paused s \<Longrightarrow>
   for_each ns (\<lambda>n. try_action (with_ratelimit (do_verify_node w n) [(''ratelimit'', b)])) s =
     (Normal (), s, [])"
  by (induction ns)
     (simp_all add: ret_def seq_def bind_def try_action_def with_ratelimit_given
        paused_do_verify_node)

lemma paused_process_verify:
  "paused s \<Longrightarrow>
   process_request (last (verify w queue ns ratelimit ev)) s =
     (Normal (), s, [RespondToPing, RInfo WakeUp, Send ev True])"
  by (simp add: process_request_def last_verify paused_for_each_verify seq_def bind_def
      respond_to_ping_def emit_def try_finally_def)

text \<open>
  Claim C7.  While the supervisor is paused, \<open>do_verify_node\<close> does nothing: no event, no
  change of the state.  \<open>verify\<close> puts its request on the queue whatever the flag, and a
  verify request processed while paused runs to its end: the actions are skipped and the
  completion is signalled; so are two requests in a row.
\<close>

theorem paused_verify_is_noop:
  assumes "paused s"
  shows "do_verify_node w n ratelimit s = (Normal (), s, []) \<and>
         verify w queue ns ratelimit ev = queue @ [last (verify w queue ns ratelimit ev)] \<and>
         process_request (last (verify w queue ns ratelimit ev)) s =
           (Normal (), s, [RespondToPing, RInfo WakeUp, Send ev True]) \<and>
         run_loop (map Request (verify w (verify w [] ns ratelimit ev) ns' ratelimit' ev')) s =
           (Normal (), s,
            [RespondToPing, RInfo WakeUp, Send ev True,
             RespondToPing, RInfo WakeUp, Send ev' True])"
proof -
  have q: "verify w (verify w [] ns ratelimit ev) ns' ratelimit' ev' =
      [last (verify w [] ns ratelimit ev), last (verify w [] ns' ratelimit' ev')]"
    by (simp add: verify_def new_request_def)
  have "run_loop (map Request (verify w (verify w [] ns ratelimit ev) ns' ratelimit' ev')) s =
      (Normal (), s,
       [RespondToPing, RInfo WakeUp, Send ev True, RespondToPing, RInfo WakeUp, Send ev' True])"
    unfolding q using assms
    by (simp add: paused_process_verify seq_def bind_def ret_def)
  moreover have "verify w queue ns ratelimit ev = queue @ [last (verify w queue ns ratelimit ev)]"
    by (simp add: verify_def new_request_def)
  ultimately show ?thesis
    using assms by (simp add: paused_do_verify_node paused_process_verify)
qed

theorem paused_verify_is_noop_witness:
  "do_verify_node w_dead node1 True s_paused = (Normal (), s_paused, []) \<and>
   process_request (last (verify w_dead [] [node1, node2] True 7)) s_paused =
     (Normal (), s_paused, [RespondToPing, RInfo WakeUp, Send 7 True])"
proof -
  have p: "paused s_paused"
    by (simp add: s_paused_def)
  from paused_verify_is_noop [OF p, of w_dead node1 True "[]" "[node1, node2]" 7] show ?thesis
    by blast
qed

lemma visible_append [simp]: "visible (t @ t') = visible t @ visible t'"
  by (simp add: visible_def)

lemma blind_ret [blind_intros]: "pause_blind (ret a)"
  by (simp add: pause_blind_def)

lemma blind_raise [blind_intros]: "pause_blind (raise e)"
  by (simp add: pause_blind_def)

lemma blind_emit [blind_intros]: "pause_blind (emit e)"
  by (simp add: pause_blind_def)

lemma blind_bind [blind_intros]:
  assumes "pause_blind m" and "\<And>a. pause_blind (f a)"
  shows "pause_blind (bind m f)"
  unfolding pause_blind_def
proof (intro allI impI)
  fix s1 s2
  assume eq: "same_but_paused s1 s2"
  from assms(1) eq have m: "result_of (m s1) = result_of (m s2)"
    "same_but_paused (state_of (m s1)) (state_of (m s2))"
    "visible (events_of (m s1)) = visible (events_of (m s2))"
    by (simp_all add: pause_blind_def)
  show "result_of (bind m f s1) = result_of (bind m f s2) \<and>
        same_but_paused (state_of (bind m f s1)) (state_of (bind m f s2)) \<and>
        visible (events_of (bind m f s1)) = visible (events_of (bind m f s2))"
  proof (cases "result_of (m s2)")
    case (Raise e)
    with m show ?thesis by (simp add: proj_simps)
  next
    case (Normal a)
    from assms(2) [of a] m(2)
    have "result_of (f a (state_of (m s1))) = result_of (f a (state_of (m s2))) \<and>
        same_but_paused (state_of (f a (state_of (m s1)))) (state_of (f a (state_of (m s2)))) \<and>
        visible (events_of (f a (state_of (m s1)))) = visible (events_of (f a (state_of (m s2))))"
      by (simp add: pause_blind_def)
    with m Normal show ?thesis by (simp add: proj_simps)
  qed
qed

lemma blind_seq [blind_intros]: "pause_blind m \<Longrightarrow> pause_blind k \<Longrightarrow> pause_blind (seq m k)"
  by (simp add: seq_def blind_bind)

lemma blind_if [blind_intros]:
  "pause_blind a \<Longrightarrow> pause_blind b \<Longrightarrow> pause_blind (if c then a else b)"
  by simp

lemma blindD:
  assumes "pause_blind m" and "same_but_paused s1 s2"
  shows "result_of (m s1) = result_of (m s2)"
    and "same_but_paused (state_of (m s1)) (state_of (m s2))"
    and "visible (events_of (m s1)) = visible (events_of (m s2))"
  using assms unfolding pause_blind_def by blast+

lemma blind_can_restart [blind_intros]:
  assumes "pause_blind a" and "pause_blind b"
  shows "pause_blind (\<lambda>s. if can_restart s then a s else b s)"
  unfolding pause_blind_def
proof (intro allI impI)
  fix s1 s2
  assume eq: "same_but_paused s1 s2"
  then have c: "can_restart s1 = can_restart s2"
    by (simp add: same_but_paused_def can_restart_def split: option.splits)
  show "result_of (if can_restart s1 then a s1 else b s1) =
          result_of (if can_restart s2 then a s2 else b s2) \<and>
        same_but_paused (state_of (if can_restart s1 then a s1 else b s1))
          (state_of (if can_restart s2 then a s2 else b s2)) \<and>
        visible (events_of (if can_restart s1 then a s1 else b s1)) =
          visible (events_of (if can_restart s2 then a s2 else b s2))"
  proof (cases "can_restart s2")
    case True
    with c blindD [OF assms(1) eq] show ?thesis by simp
  next
    case False
    with c blindD [OF assms(2) eq] show ?thesis by simp
  qed
qed

lemma blind_repeat [blind_intros]: "pause_blind m \<Longrightarrow> pause_blind (repeat k m)"
  by (induction k) (simp_all add: blind_intros)

lemma blind_respond_to_ping [blind_intros]: "pause_blind respond_to_ping"
  by (simp add: respond_to_ping_def blind_intros)

lemma blind_pause [blind_intros]: "pause_blind pause"
  by (simp add: pause_blind_def pause_def proj_simps respond_to_ping_def same_but_paused_def
      visible_def)

lemma blind_resume [blind_intros]: "pause_blind resume"
  by (simp add: pause_blind_def resume_def same_but_paused_def visible_def)

lemma blind_errback [blind_intros]: "pause_blind errback"
  by (simp add: errback_def blind_intros)

lemma blind_on_broker_revive [blind_intros]: "pause_blind on_broker_revive"
  unfolding on_broker_revive_def
  by (rule blind_seq) (simp add: pause_blind_def same_but_paused_def, rule blind_resume)

lemma blind_next_reply [blind_intros]: "pause_blind (next_reply w)"
  by (simp add: pause_blind_def same_but_paused_def)

lemma blind_blocking [blind_intros]: "pause_blind (blocking w n c)"
  by (simp add: blocking_def blind_intros)

lemma blind_insured [blind_intros]: "pause_blind (insured w n c)"
  by (simp add: insured_def blind_intros)

lemma blind_ping_loop [blind_intros]: "pause_blind (ping_loop w n sched)"
  by (induction sched) (simp_all add: blind_intros)

lemma blind_verify_restart_node [blind_intros]: "pause_blind (verify_restart_node w n)"
  by (simp add: verify_restart_node_def verify_restart_sched_def blind_intros)

lemma blind_get_bucket [blind_intros]: "pause_blind (get_bucket k)"
  by (simp add: pause_blind_def same_but_paused_def get_bucket_def split: option.splits)

lemma blind_consume [blind_intros]: "pause_blind (consume k b)"
  by (simp add: pause_blind_def same_but_paused_def consume_def)

lemma blind_pop_bucket [blind_intros]: "pause_blind (pop_bucket k)"
  by (simp add: pause_blind_def same_but_paused_def pop_bucket_def split: option.splits)

lemma blind_pop_bucket_default [blind_intros]: "pause_blind (pop_bucket_default k)"
  by (simp add: pause_blind_def same_but_paused_def pop_bucket_default_def)






end
